theory Spec2Isabelle
  imports Main "HOL-Library.Multiset" "HOL-Library.Char_ord" "HOL-Library.List_Lexorder"
begin

section \<open>Data model\<close>

text \<open>
  The offline outbox of the mobile client lives in two source modules: the request gateway
  \<^verbatim>\<open>ApiClient\<close> (\<^verbatim>\<open>src/lib/api.ts\<close>) and the outbox engine \<^verbatim>\<open>OfflineService\<close>
  (\<^verbatim>\<open>offiline-service.ts\<close>). JavaScript numbers that hold clock readings and database
  ids are integers here; counters that start at zero and are only incremented are naturals.
  Request bodies are opaque to the engine and are kept as their serialised text.
\<close>

datatype RequestType = Api | Image

record ImageDatum =
  itemId :: int
  description :: "string option"

record FileData =
  filePaths :: "string list"
  imageData :: "ImageDatum list"
  reportId :: int

text \<open>Interface \<^verbatim>\<open>OfflineRequest\<close>.\<close>

record OfflineRequest =
  req_id :: string
  req_endpoint :: string
  req_method :: string
  req_headers :: "(string \<times> string) list"
  req_body :: "string option"
  req_timestamp :: int
  req_retries :: nat
  req_type :: RequestType
  req_fileData :: "FileData option"

text \<open>Interface \<^verbatim>\<open>StoredImage\<close>.\<close>

record StoredImage =
  img_id :: string
  img_base64Data :: string
  img_fileName :: string
  img_tempId :: "string option"
  img_description :: "string option"

text \<open>The element type of \<^verbatim>\<open>OfflineReportImages.images\<close>.\<close>

record ReportImage =
  ri_tempId :: string
  ri_base64Data :: string
  ri_fileName :: string
  ri_description :: "string option"

text \<open>Interface \<^verbatim>\<open>OfflineReportImages\<close>: one asset group.\<close>

record OfflineReportImages =
  grp_id :: string
  grp_tempIds :: "string list"
  grp_images :: "ReportImage list"
  grp_timestamp :: int

text \<open>
  A browser \<^verbatim>\<open>File\<close>: its name, its media type and its content, a string of bytes.
\<close>

datatype File = File (file_name: string) (file_type: string) (file_content: string)

subsection \<open>Rendering numbers in template strings\<close>

text \<open>
  \<^verbatim>\<open>Number.prototype.toString\<close> on the integers the program renders: clock readings,
  database ids, HTTP status codes and array indices. These are safe integers, which
  JavaScript prints in plain decimal digits (the exponent form only starts at
  \<open>10\<^sup>2\<^sup>1\<close>).
\<close>

fun digits :: "nat \<Rightarrow> string" where
  "digits n = (if n < 10 then [''0123456789'' ! n]
               else digits (n div 10) @ [''0123456789'' ! (n mod 10)])"

declare digits.simps [simp del]

definition toString :: "int \<Rightarrow> string" where
  "toString i = (if i < 0 then CHR ''-'' # digits (nat (- i)) else digits (nat i))"

section \<open>The durable store\<close>

text \<open>
  A \<^verbatim>\<open>localforage\<close> instance is a key-value store: an association list with one entry per
  key. \<^verbatim>\<open>setItem\<close> overwrites the value of a key that exists and adds the key otherwise.
  The instances are created without a driver option, so that \<^verbatim>\<open>localforage\<close> takes its
  first driver, IndexedDB. There \<^verbatim>\<open>iterate\<close> walks a cursor over the object store, which
  visits the entries in ascending order of their keys; string keys compare character by
  character, a proper prefix first.
\<close>

type_synonym 'v Store = "(string \<times> 'v) list"

primrec setItem :: "string \<Rightarrow> 'v \<Rightarrow> 'v Store \<Rightarrow> 'v Store" where
  "setItem k v [] = [(k, v)]"
| "setItem k v (p # ps) = (if fst p = k then (k, v) # ps else p # setItem k v ps)"

primrec getItem :: "'v Store \<Rightarrow> string \<Rightarrow> 'v option" where
  "getItem [] k = None"
| "getItem (p # ps) k = (if fst p = k then Some (snd p) else getItem ps k)"

primrec removeItem :: "string \<Rightarrow> 'v Store \<Rightarrow> 'v Store" where
  "removeItem k [] = []"
| "removeItem k (p # ps) = (if fst p = k then removeItem k ps else p # removeItem k ps)"

definition iterate :: "'v Store \<Rightarrow> 'v list" where
  "iterate st = map snd (sort_key fst st)"

section \<open>Network and errors\<close>

text \<open>
  What \<^verbatim>\<open>directRequest\<close> and the replay read from a response body: the optional
  \<^verbatim>\<open>message\<close>, and for a saved report its \<^verbatim>\<open>id\<close> and \<^verbatim>\<open>items\<close> (an absent item list is
  the empty list: \<^verbatim>\<open>findAndUploadReportImages\<close> returns at once on both).
\<close>

record SavedItem =
  si_id :: int
  si_tempId :: "string option"

record ResponseData =
  rd_message :: "string option"
  rd_id :: int
  rd_items :: "SavedItem list"

datatype FormValue = Text string | Blob File

type_synonym FormData = "(string \<times> FormValue) list"

text \<open>
  The two ways the client reaches the network: \<^verbatim>\<open>CapacitorHttp.request\<close> (method, url,
  headers, body, params) and \<^verbatim>\<open>fetch\<close> with a form (url, Authorization header, form).
\<close>

datatype NetCall =
  HttpRequest string string "(string \<times> string) list" "string option" "(string \<times> string) list"
| Fetch string string FormData

text \<open>
  A reply is a status with a parsed body (\<open>None\<close> is the JSON value \<^verbatim>\<open>null\<close>), or no
  reply at all: the call rejects. A body that does not parse counts as no reply, as every
  caller handles the two alike.
\<close>

datatype NetReply = Reply int "ResponseData option" | TransportFailure

text \<open>
  The network is outside the program: the reply to the \<open>k\<close>-th call of the process is
  given by an oracle.
\<close>

type_synonym Net = "nat \<Rightarrow> NetCall \<Rightarrow> NetReply"

text \<open>
  \<^verbatim>\<open>ApiError(message, status, data)\<close>, a failing store operation, and any other JavaScript
  exception (\<^verbatim>\<open>Error\<close>, \<^verbatim>\<open>TypeError\<close>) with its message.
\<close>

datatype Error = ApiError string int | StorageError | JsError string

text \<open>The console lines the properties speak about.\<close>

datatype LogEntry =
  Processing OfflineRequest
| Synced string
| Failed string nat
| Warn string

section \<open>Base64 and data URLs\<close>

definition base64Alphabet :: string where
  "base64Alphabet = ''ABCDEFGHIJKLMNOPQRSTUVWXYZabcdefghijklmnopqrstuvwxyz0123456789+/''"

definition sextet :: "char \<Rightarrow> nat option" where
  "sextet c = map_of (zip base64Alphabet [0..<64]) c"

text \<open>Four digits of six bits give three bytes; the bits left over at the end are dropped.\<close>

fun octets :: "nat list \<Rightarrow> nat list" where
  "octets (a # b # c # d # rest) =
     (a * 4 + b div 16) # ((b mod 16) * 16 + c div 4) # ((c mod 4) * 64 + d) # octets rest"
| "octets [a, b, c] = [a * 4 + b div 16, (b mod 16) * 16 + c div 4]"
| "octets [a, b] = [a * 4 + b div 16]"
| "octets _ = []"

definition asciiWhitespace :: "char \<Rightarrow> bool" where
  "asciiWhitespace c = ((of_char c :: nat) \<in> {9, 10, 12, 13, 32})"

definition stripPadding :: "string \<Rightarrow> string" where
  "stripPadding d =
     (if length d mod 4 = 0
      then (if 2 \<le> length d \<and> drop (length d - 2) d = ''=='' then take (length d - 2) d
            else if d \<noteq> [] \<and> last d = CHR ''='' then butlast d
            else d)
      else d)"

text \<open>
  \<^verbatim>\<open>atob\<close>, the forgiving base64 decoding of the HTML standard: white space is removed,
  then the padding of an input whose length is a multiple of four; what is left must not
  have a length of one more than a multiple of four and must consist of base64 digits.
  \<open>None\<close> is the \<^verbatim>\<open>InvalidCharacterError\<close> it throws otherwise.
\<close>

definition atob :: "string \<Rightarrow> string option" where
  "atob data =
     (let d = stripPadding (filter (\<lambda>c. \<not> asciiWhitespace c) data)
      in if length d mod 4 = 1 then None
         else map_option (\<lambda>digits. map char_of (octets digits)) (those (map sextet d)))"

text \<open>\<^verbatim>\<open>String.prototype.split\<close> with a separator of one character.\<close>

fun split :: "char \<Rightarrow> string \<Rightarrow> string list" where
  "split sep [] = [[]]"
| "split sep (c # cs) =
     (if c = sep then [] # split sep cs
      else (case split sep cs of
              [] \<Rightarrow> [[c]]
            | part # parts \<Rightarrow> (c # part) # parts))"

text \<open>
  The \<^verbatim>\<open>Blob\<close> and \<^verbatim>\<open>File\<close> constructors keep a media type of printable ASCII characters,
  in lower case, and replace any other by the empty string.
\<close>

definition blobType :: "string \<Rightarrow> string" where
  "blobType t =
     (if list_all (\<lambda>c. 32 \<le> (of_char c :: nat) \<and> (of_char c :: nat) \<le> 126) t
      then map (\<lambda>c. if 65 \<le> (of_char c :: nat) \<and> (of_char c :: nat) \<le> 90
                     then char_of (of_char c + (32 :: nat)) else c) t
      else [])"

text \<open>
  \<^verbatim>\<open>base64ToFile\<close>. The payload is the second of the parts between commas; when there is
  none, \<^verbatim>\<open>atob\<close> is given \<^verbatim>\<open>undefined\<close>, which it reads as that word and rejects. The media
  type is looked for between the first colon and the first semicolon of the first part;
  without a colon the second \<^verbatim>\<open>split\<close> is called on \<^verbatim>\<open>undefined\<close>, a \<^verbatim>\<open>TypeError\<close>.
\<close>

definition base64ToFile :: "string \<Rightarrow> string \<Rightarrow> Error + File" where
  "base64ToFile base64Data fileName =
     (let parts = split CHR '','' base64Data
      in case atob (if 1 < length parts then parts ! 1 else ''undefined'') of
           None \<Rightarrow> Inl (JsError ''InvalidCharacterError'')
         | Some byteString \<Rightarrow>
             (let scheme = split CHR '':'' (hd parts)
              in if 1 < length scheme
                 then Inr (File fileName (blobType (hd (split CHR '';'' (scheme ! 1)))) byteString)
                 else Inl (JsError ''TypeError'')))"

text \<open>
  \<^verbatim>\<open>fileToBase64\<close> reads the file with \<^verbatim>\<open>FileReader.readAsDataURL\<close>. The reader belongs to
  the browser: the data URL it makes of a file is given by an oracle, and \<open>None\<close> is a read
  error, on which the promise is rejected.
\<close>

type_synonym FileReader = "File \<Rightarrow> string option"

definition fileToBase64 :: "FileReader \<Rightarrow> File \<Rightarrow> Error + string" where
  "fileToBase64 reader file =
     (case reader file of
        None \<Rightarrow> Inl (JsError ''ProgressEvent'')
      | Some result \<Rightarrow> Inr result)"

section \<open>Process state\<close>

text \<open>
  The fields of \<^verbatim>\<open>OfflineService\<close> (\<open>isOnline\<close>, \<open>syncInProgress\<close>, \<open>syncCallbacks\<close> and the
  three stores), followed by the part of the world the service acts on: the
  \<^verbatim>\<open>access_token\<close> entry of \<^verbatim>\<open>localStorage\<close>, whether the storage backend accepts
  operations during the current call, the network calls made so far, the console, and the
  sync callbacks fired so far. A callback is known by its number.
\<close>

record State =
  isOnline :: bool
  syncInProgress :: bool
  syncCallbacks :: "nat list"
  queueStore :: "OfflineRequest Store"
  imagesStore :: "StoredImage Store"
  reportImagesStore :: "OfflineReportImages Store"
  accessToken :: "string option"
  storageAvailable :: bool
  netLog :: "NetCall list"
  console :: "LogEntry list"
  fired :: "nat list"

definition perform :: "Net \<Rightarrow> NetCall \<Rightarrow> State \<Rightarrow> NetReply \<times> State" where
  "perform net c s = (net (length (netLog s)) c, s\<lparr>netLog := netLog s @ [c]\<rparr>)"

definition logLine :: "LogEntry \<Rightarrow> State \<Rightarrow> State" where
  "logLine e s = s\<lparr>console := console s @ [e]\<rparr>"

section \<open>Request queue management\<close>

text \<open>
  The readings \<^verbatim>\<open>queueRequest\<close> and its caller take from the environment: the clock inside
  \<^verbatim>\<open>generateId\<close>, the random base-36 suffix, the clock for \<open>timestamp\<close>, and the clock for
  the acknowledgement's \<open>queuedAt\<close>.
\<close>

record Env =
  env_idClock :: int
  env_random :: string
  env_now :: int
  env_ackClock :: int

definition generateId :: "Env \<Rightarrow> string" where
  "generateId env = ''req_'' @ toString (env_idClock env) @ ''_'' @ env_random env"

text \<open>The argument of \<^verbatim>\<open>queueRequest\<close>: an \<^verbatim>\<open>OfflineRequest\<close> without id, timestamp and retries.\<close>

record RequestDescriptor =
  rq_endpoint :: string
  rq_method :: string
  rq_headers :: "(string \<times> string) list"
  rq_body :: "string option"
  rq_type :: RequestType
  rq_fileData :: "FileData option"

definition queueRequest :: "Env \<Rightarrow> RequestDescriptor \<Rightarrow> State \<Rightarrow> (Error + string) \<times> State" where
  "queueRequest env request s =
     (let offlineRequest = \<lparr> req_id = generateId env,
            req_endpoint = rq_endpoint request, req_method = rq_method request,
            req_headers = rq_headers request, req_body = rq_body request,
            req_timestamp = env_now env, req_retries = 0,
            req_type = rq_type request, req_fileData = rq_fileData request \<rparr>
      in if storageAvailable s
         then (Inr (req_id offlineRequest),
               s\<lparr>queueStore := setItem (req_id offlineRequest) offlineRequest (queueStore s)\<rparr>)
         else (Inl StorageError, s))"

definition getPendingRequests :: "State \<Rightarrow> OfflineRequest list" where
  "getPendingRequests s = sort_key req_timestamp (iterate (queueStore s))"

definition removeRequest :: "string \<Rightarrow> State \<Rightarrow> State" where
  "removeRequest rid s = s\<lparr>queueStore := removeItem rid (queueStore s)\<rparr>"

definition updateRequestRetry :: "string \<Rightarrow> nat \<Rightarrow> State \<Rightarrow> State" where
  "updateRequestRetry rid retries s =
     (case getItem (queueStore s) rid of
        None \<Rightarrow> s
      | Some req \<Rightarrow>
          s\<lparr>queueStore := setItem rid (req\<lparr>req_retries := retries\<rparr>) (queueStore s)\<rparr>)"

section \<open>The request gateway (class ApiClient)\<close>

definition API_BASE_URL :: string where
  "API_BASE_URL = ''http://13.50.108.254:3000''"

text \<open>
  The options object of \<^verbatim>\<open>request\<close> and \<^verbatim>\<open>directRequest\<close>. An option that may be left out
  and whose absence a property speaks about is an \<open>option\<close>; absent headers and params are
  the empty object, an absent \<open>skipJsonContentType\<close> is \<open>False\<close>.
\<close>

record RequestOptions =
  opt_method :: "string option"
  opt_headers :: "(string \<times> string) list"
  opt_body :: "string option"
  opt_params :: "(string \<times> string) list"
  opt_skipJsonContentType :: bool
  opt_offlineable :: "bool option"

definition httpErrorMessage :: "ResponseData option \<Rightarrow> int \<Rightarrow> string" where
  "httpErrorMessage data status =
     (let fallback = ''HTTP error! status: '' @ toString status
      in case data of
           None \<Rightarrow> fallback
         | Some d \<Rightarrow> (case rd_message d of
                        None \<Rightarrow> fallback
                      | Some m \<Rightarrow> if m \<noteq> [] then m else fallback))"

definition statusOk :: "int \<Rightarrow> bool" where
  "statusOk status = (\<not> (status < 200 \<or> status \<ge> 300))"

text \<open>
  The request \<^verbatim>\<open>directRequest\<close> hands to \<^verbatim>\<open>CapacitorHttp.request\<close>: the JSON content type
  is added unless it is skipped, already given, or the method is \<^verbatim>\<open>GET\<close>.
\<close>

definition requestCall :: "string \<Rightarrow> RequestOptions \<Rightarrow> NetCall" where
  "requestCall endpoint options =
     (let url = API_BASE_URL @ endpoint;
          method = (case opt_method options of None \<Rightarrow> ''GET'' | Some m \<Rightarrow> m);
          headers = opt_headers options;
          contentType = (case getItem headers ''Content-Type'' of None \<Rightarrow> [] | Some v \<Rightarrow> v);
          requestHeaders =
            (if \<not> opt_skipJsonContentType options \<and> contentType = [] \<and> method \<noteq> ''GET''
             then setItem ''Content-Type'' ''application/json'' headers
             else headers)
      in HttpRequest method url requestHeaders (opt_body options) (opt_params options))"

definition directRequest ::
  "Net \<Rightarrow> string \<Rightarrow> RequestOptions \<Rightarrow> State \<Rightarrow> (Error + ResponseData option) \<times> State" where
  "directRequest net endpoint options s =
     (case perform net (requestCall endpoint options) s of
        (TransportFailure, s1) \<Rightarrow> (Inl (ApiError ''Network error occurred'' 0), s1)
      | (Reply status data, s1) \<Rightarrow>
          if status < 200 \<or> status \<ge> 300
          then (Inl (ApiError (httpErrorMessage data status) status), s1)
          else (Inr data, s1))"

text \<open>The acknowledgement \<^verbatim>\<open>handleOfflineRequest\<close> returns for a queued request.\<close>

record QueuedAck =
  ack_success :: bool
  ack_message :: string
  ack_requestId :: string
  ack_queuedAt :: int
  ack_offline :: bool

datatype RequestResult = Response "ResponseData option" | Queued QueuedAck

definition handleOfflineRequest ::
  "Env \<Rightarrow> string \<Rightarrow> RequestOptions \<Rightarrow> State \<Rightarrow> (Error + RequestResult) \<times> State" where
  "handleOfflineRequest env endpoint options s =
     (let method = (case opt_method options of None \<Rightarrow> ''GET'' | Some m \<Rightarrow> m)
      in case queueRequest env
                \<lparr> rq_endpoint = endpoint, rq_method = method, rq_headers = opt_headers options,
                  rq_body = opt_body options, rq_type = Api, rq_fileData = None \<rparr> s of
           (Inr requestId, s1) \<Rightarrow>
             (Inr (Queued \<lparr> ack_success = True,
                            ack_message = ''Request queued for offline execution'',
                            ack_requestId = requestId,
                            ack_queuedAt = env_ackClock env,
                            ack_offline = True \<rparr>), s1)
         | (Inl e, s1) \<Rightarrow> (Inl (ApiError ''Failed to queue offline request'' 0), s1))"

definition request ::
  "Env \<Rightarrow> Net \<Rightarrow> string \<Rightarrow> RequestOptions \<Rightarrow> State \<Rightarrow> (Error + RequestResult) \<times> State" where
  "request env net endpoint options s =
     (let offlineable = (case opt_offlineable options of None \<Rightarrow> False | Some b \<Rightarrow> b)
      in if offlineable \<and> \<not> isOnline s
         then handleOfflineRequest env endpoint options s
         else (case directRequest net endpoint options s of
                 (Inl e, s1) \<Rightarrow> (Inl e, s1)
               | (Inr data, s1) \<Rightarrow> (Inr (Response data), s1)))"

subsection \<open>Image upload\<close>

record ImageUploadData =
  up_reportId :: int
  up_images :: "ImageDatum list"
  up_files :: "File list"

definition metadataFields :: "ImageDatum list \<Rightarrow> FormData" where
  "metadataFields images =
     concat (map (\<lambda>(index, image).
        (''images['' @ digits index @ ''][itemId]'', Text (toString (itemId image))) #
        (case description image of
           None \<Rightarrow> []
         | Some d \<Rightarrow> if d \<noteq> []
                     then [(''images['' @ digits index @ ''][description]'', Text d)]
                     else [])) (enumerate 0 images))"

definition uploadForm :: "ImageUploadData \<Rightarrow> FormData" where
  "uploadForm uploadData =
     [(''reportId'', Text (toString (up_reportId uploadData)))] @
     metadataFields (up_images uploadData) @
     map (\<lambda>(file, image). (''image_'' @ toString (itemId image), Blob file))
         (zip (up_files uploadData) (up_images uploadData))"

text \<open>
  \<^verbatim>\<open>uploadImages\<close>. Reading \<^verbatim>\<open>uploadData.images[index]\<close> for a file without metadata is a
  \<^verbatim>\<open>TypeError\<close>, raised before the request is made.
\<close>

definition uploadImages ::
  "Net \<Rightarrow> string \<Rightarrow> ImageUploadData \<Rightarrow> State \<Rightarrow> (Error + ResponseData option) \<times> State" where
  "uploadImages net token uploadData s =
     (if length (up_files uploadData) > length (up_images uploadData)
      then (Inl (JsError ''TypeError''), s)
      else case perform net
                  (Fetch ''https://ats-system-two.vercel.app/api/upload''
                     (''Bearer '' @ token) (uploadForm uploadData)) s of
             (TransportFailure, s1) \<Rightarrow> (Inl (ApiError ''Network error occurred'' 0), s1)
           | (Reply status errorData, s1) \<Rightarrow>
               if \<not> statusOk status
               then (Inl (ApiError (httpErrorMessage errorData status) status), s1)
               else (Inr errorData, s1))"

section \<open>Asset groups and reconciliation\<close>

record CapturedImage =
  cap_tempId :: string
  cap_file :: File
  cap_description :: "string option"

text \<open>
  The \<^verbatim>\<open>Promise.all\<close> over the captured images in \<^verbatim>\<open>storeOfflineReportImages\<close>: every file
  is read, and the first read error rejects the whole.
\<close>

primrec readImages :: "FileReader \<Rightarrow> CapturedImage list \<Rightarrow> Error + ReportImage list" where
  "readImages reader [] = Inr []"
| "readImages reader (img # rest) =
     (case fileToBase64 reader (cap_file img) of
        Inl e \<Rightarrow> Inl e
      | Inr base64Data \<Rightarrow>
          (case readImages reader rest of
             Inl e \<Rightarrow> Inl e
           | Inr imagesData \<Rightarrow>
               Inr (\<lparr> ri_tempId = cap_tempId img, ri_base64Data = base64Data,
                       ri_fileName = ''item-'' @ cap_tempId img @ ''.jpg'',
                       ri_description = cap_description img \<rparr> # imagesData)))"

text \<open>
  \<^verbatim>\<open>storeOfflineReportImages\<close>: the clock is read once for the storage id and once for the
  timestamp.
\<close>

definition storeOfflineReportImages ::
  "FileReader \<Rightarrow> int \<Rightarrow> int \<Rightarrow> CapturedImage list \<Rightarrow> State \<Rightarrow> (Error + string) \<times> State" where
  "storeOfflineReportImages reader idClock now images s =
     (let storageId = ''report_images_'' @ toString idClock
      in case readImages reader images of
           Inl e \<Rightarrow> (Inl e, s)
         | Inr imagesData \<Rightarrow>
             (let offlineImages = \<lparr> grp_id = storageId, grp_tempIds = map cap_tempId images,
                                    grp_images = imagesData, grp_timestamp = now \<rparr>
              in if storageAvailable s
                 then (Inr storageId,
                       s\<lparr>reportImagesStore :=
                            setItem storageId offlineImages (reportImagesStore s)\<rparr>)
                 else (Inl StorageError, s)))"

text \<open>
  The callback \<^verbatim>\<open>findStoredImagesByTempIds\<close> passes to \<^verbatim>\<open>iterate\<close>: a group with one of the
  wanted temp ids replaces what was found so far when nothing was found or when it is
  strictly older.
\<close>

definition hasMatchingTempIds :: "string list \<Rightarrow> OfflineReportImages \<Rightarrow> bool" where
  "hasMatchingTempIds tempIds value = list_ex (\<lambda>tempId. tempId \<in> set tempIds) (grp_tempIds value)"

definition keepOldest ::
  "string list \<Rightarrow> OfflineReportImages option \<Rightarrow> OfflineReportImages \<Rightarrow> OfflineReportImages option" where
  "keepOldest tempIds foundImages value =
     (if hasMatchingTempIds tempIds value \<and>
         (case foundImages of
            None \<Rightarrow> True
          | Some f \<Rightarrow> grp_timestamp value < grp_timestamp f)
      then Some value else foundImages)"

definition findStoredImagesByTempIds :: "string list \<Rightarrow> State \<Rightarrow> OfflineReportImages option" where
  "findStoredImagesByTempIds tempIds s =
     foldl (keepOldest tempIds) None (iterate (reportImagesStore s))"

definition removeStoredReportImages :: "string \<Rightarrow> State \<Rightarrow> State" where
  "removeStoredReportImages storageId s =
     s\<lparr>reportImagesStore := removeItem storageId (reportImagesStore s)\<rparr>"

definition noItemWarning :: "string \<Rightarrow> string" where
  "noItemWarning tempId = ''No database item found for tempId: '' @ tempId"

text \<open>
  The \<^verbatim>\<open>map\<close> over the stored images with its \<^verbatim>\<open>filter\<close>: for each image in order, either
  the metadata with the real item id and the decoded file, or a warning and nothing else.
  An image that does not decode throws, which ends the \<^verbatim>\<open>map\<close>; the second component
  holds the warnings written until then.
\<close>

primrec matchImages ::
  "SavedItem list \<Rightarrow> ReportImage list
     \<Rightarrow> (Error + ImageDatum list \<times> File list) \<times> string list" where
  "matchImages items [] = (Inr ([], []), [])"
| "matchImages items (storedImage # rest) =
     (case find (\<lambda>item. si_tempId item = Some (ri_tempId storedImage)) items of
        None \<Rightarrow>
          (case matchImages items rest of
             (result, warnings) \<Rightarrow> (result, noItemWarning (ri_tempId storedImage) # warnings))
      | Some dbItem \<Rightarrow>
          (case base64ToFile (ri_base64Data storedImage) (ri_fileName storedImage) of
             Inl e \<Rightarrow> (Inl e, [])
           | Inr file \<Rightarrow>
               (case matchImages items rest of
                  (Inl e, warnings) \<Rightarrow> (Inl e, warnings)
                | (Inr (metas, files), warnings) \<Rightarrow>
                    (Inr (\<lparr> itemId = si_id dbItem,
                            description =
                              Some (case ri_description storedImage of
                                      None \<Rightarrow> ''Image for item '' @ toString (si_id dbItem)
                                    | Some d \<Rightarrow> if d \<noteq> [] then d
                                                else ''Image for item '' @ toString (si_id dbItem)) \<rparr>
                          # metas,
                          file # files),
                     warnings))))"

definition tokenPresent :: "string option \<Rightarrow> bool" where
  "tokenPresent token = (case token of None \<Rightarrow> False | Some t \<Rightarrow> t \<noteq> [])"

definition uploadImagesForSyncedReport ::
  "Net \<Rightarrow> ResponseData \<Rightarrow> OfflineReportImages \<Rightarrow> State \<Rightarrow> (Error + unit) \<times> State" where
  "uploadImagesForSyncedReport net savedReport storedImages s =
     (if grp_images storedImages = [] then (Inr (), s)
      else case matchImages (rd_items savedReport) (grp_images storedImages) of
        (Inl e, warnings) \<Rightarrow> (Inl e, s\<lparr>console := console s @ map Warn warnings\<rparr>)
      | (Inr (imageMetadata, files), warnings) \<Rightarrow>
          let s1 = s\<lparr>console := console s @ map Warn warnings\<rparr>
          in if length imageMetadata > 0 \<and> length files > 0
             then (case accessToken s1 of
                     None \<Rightarrow> (Inl (JsError ''No authentication token available''), s1)
                   | Some token \<Rightarrow>
                       if token = [] then (Inl (JsError ''No authentication token available''), s1)
                       else (case uploadImages net token
                                    \<lparr> up_reportId = rd_id savedReport, up_images = imageMetadata,
                                      up_files = files \<rparr> s1 of
                               (Inl e, s2) \<Rightarrow> (Inl e, s2)
                             | (Inr None, s2) \<Rightarrow> (Inl (JsError ''Image upload failed''), s2)
                             | (Inr (Some uploadResult), s2) \<Rightarrow>
                                 (Inr (), removeStoredReportImages (grp_id storedImages) s2)))
             else (Inr (), removeStoredReportImages (grp_id storedImages)
                             (logLine (Warn ''No valid images to upload after processing'') s1)))"

text \<open>The temp ids of the saved report's items, without the absent and the empty ones.\<close>

definition reportTempIds :: "ResponseData \<Rightarrow> string list" where
  "reportTempIds savedReport =
     List.map_filter
       (\<lambda>item. case si_tempId item of
                  None \<Rightarrow> None
                | Some tempId \<Rightarrow> if tempId \<noteq> [] then Some tempId else None)
       (rd_items savedReport)"

definition findAndUploadReportImages ::
  "Net \<Rightarrow> ResponseData \<Rightarrow> State \<Rightarrow> (Error + unit) \<times> State" where
  "findAndUploadReportImages net savedReport s =
     (if rd_items savedReport = [] then (Inr (), s)
      else let tempIds = reportTempIds savedReport
           in if tempIds = [] then (Inr (), s)
              else (case findStoredImagesByTempIds tempIds s of
                      None \<Rightarrow> (Inr (), s)
                    | Some storedImages \<Rightarrow>
                        uploadImagesForSyncedReport net savedReport storedImages s))"

section \<open>Replaying one request\<close>

definition processApiRequest :: "Net \<Rightarrow> OfflineRequest \<Rightarrow> State \<Rightarrow> (Error + unit) \<times> State" where
  "processApiRequest net req s =
     (case directRequest net (req_endpoint req)
             \<lparr> opt_method = Some (req_method req), opt_headers = req_headers req,
               opt_body = req_body req, opt_params = [], opt_skipJsonContentType = False,
               opt_offlineable = None \<rparr> s of
        (Inl e, s1) \<Rightarrow> (Inl e, s1)
      | (Inr response, s1) \<Rightarrow>
          if req_endpoint req = ''/price-reports'' \<and> req_method req = ''POST''
          then (case response of
                  None \<Rightarrow> (Inl (JsError ''TypeError''), s1)
                | Some fullReport \<Rightarrow>
                    if tokenPresent (accessToken s1)
                    then (case findAndUploadReportImages net fullReport s1 of
                            (Inl e, s2) \<Rightarrow>
                              (Inr (), logLine (Warn ''Failed to get full report for image upload:'') s2)
                          | (Inr u, s2) \<Rightarrow> (Inr (), s2))
                    else (Inr (), s1))
          else (Inr (), s1))"

definition removeStoredImage :: "string \<Rightarrow> State \<Rightarrow> State" where
  "removeStoredImage imageId s = s\<lparr>imagesStore := removeItem imageId (imagesStore s)\<rparr>"

text \<open>
  The loop of \<^verbatim>\<open>processImageUpload\<close> over \<open>filePaths\<close>, from index \<open>i\<close>: each stored image
  is decoded, appended to the form under the item id of \<open>imageData[i]\<close> (the list \<open>metas\<close>)
  and removed from the image store. An image that does not decode throws, and reading
  \<open>imageData[i]\<close> out of range is a \<^verbatim>\<open>TypeError\<close>.
\<close>

fun appendStoredFiles ::
  "nat \<Rightarrow> string list \<Rightarrow> ImageDatum list \<Rightarrow> FormData \<Rightarrow> State \<Rightarrow> (Error + FormData) \<times> State" where
  "appendStoredFiles i [] metas formData s = (Inr formData, s)"
| "appendStoredFiles i (imageKey # rest) metas formData s =
     (case getItem (imagesStore s) imageKey of
        None \<Rightarrow> appendStoredFiles (Suc i) rest metas formData s
      | Some storedImage \<Rightarrow>
          (case base64ToFile (img_base64Data storedImage) (img_fileName storedImage) of
             Inl e \<Rightarrow> (Inl e, s)
           | Inr file \<Rightarrow>
               if i < length metas
               then appendStoredFiles (Suc i) rest metas
                      (formData @ [(''image_'' @ toString (itemId (metas ! i)), Blob file)])
                      (removeStoredImage imageKey s)
               else (Inl (JsError ''TypeError''), s)))"

definition UPLOAD_URL :: string where
  "UPLOAD_URL = ''http://41.220.118.182:3000/upload''"

definition processImageUpload :: "Net \<Rightarrow> OfflineRequest \<Rightarrow> State \<Rightarrow> (Error + unit) \<times> State" where
  "processImageUpload net req s =
     (case req_fileData req of
        None \<Rightarrow> (Inl (JsError ''No file data found for image upload''), s)
      | Some fd \<Rightarrow>
          (case appendStoredFiles 0 (filePaths fd) (imageData fd)
                  [(''reportId'', Text (toString (reportId fd)))] s of
             (Inl e, s1) \<Rightarrow> (Inl e, s1)
           | (Inr formData, s1) \<Rightarrow>
               (case perform net
                       (Fetch UPLOAD_URL
                          (case getItem (req_headers req) ''Authorization'' of
                             None \<Rightarrow> [] | Some v \<Rightarrow> v)
                          (formData @ metadataFields (imageData fd))) s1 of
                  (TransportFailure, s2) \<Rightarrow> (Inl (JsError ''Failed to fetch''), s2)
                | (Reply status data, s2) \<Rightarrow>
                    if \<not> statusOk status
                    then (Inl (JsError (''HTTP error! status: '' @ toString status)), s2)
                    else (Inr (), s2))))"

definition processRequest :: "Net \<Rightarrow> OfflineRequest \<Rightarrow> State \<Rightarrow> (Error + unit) \<times> State" where
  "processRequest net req s =
     (if req_type req = Image then processImageUpload net req s
      else processApiRequest net req s)"

section \<open>The drain\<close>

text \<open>The local variables of \<^verbatim>\<open>syncPendingRequests\<close> and the process state.\<close>

record LoopState =
  requests :: "OfflineRequest list"
  processedIds :: "string set"
  processedCount :: nat
  world :: State

text \<open>One pass through the body of the \<^verbatim>\<open>while\<close> loop.\<close>

definition syncBody :: "Net \<Rightarrow> LoopState \<Rightarrow> LoopState" where
  "syncBody net ls =
     (case requests ls of
        [] \<Rightarrow> ls
      | req # rest \<Rightarrow>
          if req_id req \<in> processedIds ls then ls\<lparr>requests := rest\<rparr>
          else if req_retries req \<ge> 3 then
            (let s1 = removeRequest (req_id req) (world ls)
             in ls\<lparr>requests := getPendingRequests s1,
                   processedIds := insert (req_id req) (processedIds ls),
                   world := s1\<rparr>)
          else (case getItem (queueStore (world ls)) (req_id req) of
                  None \<Rightarrow> ls\<lparr>requests := rest,
                              processedIds := insert (req_id req) (processedIds ls)\<rparr>
                | Some currentRequest \<Rightarrow>
                    (case processRequest net req (logLine (Processing req) (world ls)) of
                       (Inr u, s1) \<Rightarrow>
                         (let s2 = logLine (Synced (req_id req))
                                     (removeRequest (req_id req) s1)
                          in ls\<lparr>requests := getPendingRequests s2,
                                processedIds := insert (req_id req) (processedIds ls),
                                processedCount := processedCount ls + 1,
                                world := s2\<rparr>)
                     | (Inl error, s1) \<Rightarrow>
                         (let s2 = logLine (Failed (req_id req) (req_retries req + 1))
                                     (updateRequestRetry (req_id req)
                                        (req_retries req + 1) s1)
                          in ls\<lparr>requests := rest,
                                processedIds := insert (req_id req) (processedIds ls),
                                world := s2\<rparr>))))"

definition loopCondition :: "LoopState \<Rightarrow> bool" where
  "loopCondition ls = (length (requests ls) > 0 \<and> processedCount ls < 50)"

text \<open>
  The \<^verbatim>\<open>while\<close> loop itself. That it terminates on every input is proved below, once the
  effect of the body on the queue is known.
\<close>

function syncLoop :: "Net \<Rightarrow> LoopState \<Rightarrow> LoopState" where
  "syncLoop net ls = (if loopCondition ls then syncLoop net (syncBody net ls) else ls)"
  by pat_completeness auto

section \<open>The drain entry point\<close>

definition onSyncComplete :: "nat \<Rightarrow> State \<Rightarrow> State" where
  "onSyncComplete callback s = s\<lparr>syncCallbacks := syncCallbacks s @ [callback]\<rparr>"

definition notifySyncComplete :: "State \<Rightarrow> State" where
  "notifySyncComplete s = s\<lparr>fired := fired s @ syncCallbacks s\<rparr>"

text \<open>The loop variables as \<^verbatim>\<open>syncPendingRequests\<close> initialises them.\<close>

definition startLoop :: "State \<Rightarrow> LoopState" where
  "startLoop s = \<lparr> requests = getPendingRequests s, processedIds = {}, processedCount = 0,
                   world = s \<rparr>"

text \<open>
  \<^verbatim>\<open>syncPendingRequests\<close>. The flag is tested and set before the first suspension point. A
  storage backend that is down rejects the first read; the \<^verbatim>\<open>finally\<close> block clears the
  flag on every way out.
\<close>

definition syncPendingRequests :: "Net \<Rightarrow> State \<Rightarrow> (Error + unit) \<times> State" where
  "syncPendingRequests net s =
     (if syncInProgress s then (Inr (), s)
      else let s1 = s\<lparr>syncInProgress := True\<rparr>
           in if \<not> storageAvailable s1 then (Inl StorageError, s1\<lparr>syncInProgress := False\<rparr>)
              else let ls = syncLoop net (startLoop s1);
                       s2 = notifySyncComplete (world ls)
                   in (Inr (), s2\<lparr>syncInProgress := False\<rparr>))"

text \<open>The network listener: every change of connectivity is recorded, and going online drains.\<close>

definition networkStatusChange :: "Net \<Rightarrow> bool \<Rightarrow> State \<Rightarrow> State" where
  "networkStatusChange net connected s =
     (let s1 = s\<lparr>isOnline := connected\<rparr>
      in if isOnline s1 then snd (syncPendingRequests net s1) else s1)"

section \<open>Notions used to state the properties\<close>

text \<open>The requests announced by a \<open>Processing\<close> line and the ids of the \<open>Synced\<close> lines.\<close>

definition attempted :: "LogEntry list \<Rightarrow> OfflineRequest list" where
  "attempted entries = concat (map (\<lambda>e. case e of Processing r \<Rightarrow> [r] | _ \<Rightarrow> []) entries)"

definition syncedIds :: "LogEntry list \<Rightarrow> string list" where
  "syncedIds entries = concat (map (\<lambda>e. case e of Synced i \<Rightarrow> [i] | _ \<Rightarrow> []) entries)"

text \<open>
  Replaying a request talks to the network, writes warnings and touches the two image
  stores. Everything else is the engine's view.
\<close>

definition engineView ::
  "State \<Rightarrow> bool \<times> bool \<times> nat list \<times> OfflineRequest Store \<times> string option \<times> bool \<times> nat list
            \<times> OfflineRequest list \<times> string list" where
  "engineView s = (isOnline s, syncInProgress s, syncCallbacks s, queueStore s, accessToken s,
                   storageAvailable s, fired s, attempted (console s), syncedIds (console s))"

text \<open>
  The ids that can still be processed: those of the listed and of the stored requests that
  are not yet in \<open>processedIds\<close>. Every pass through the body either removes one of them,
  or leaves them and shortens the list.
\<close>

definition storedIds :: "OfflineRequest Store \<Rightarrow> string set" where
  "storedIds st = req_id ` snd ` set st"

definition pendingIds :: "LoopState \<Rightarrow> string set" where
  "pendingIds ls =
     (req_id ` set (requests ls) \<union> storedIds (queueStore (world ls))) - processedIds ls"

text \<open>
  The counter of the loop against the console, relative to the \<open>Synced\<close> lines \<open>base\<close>
  written before the drain: it is at most 50, it counts the lines added since, and the
  requests these lines name are gone from the queue.
\<close>

definition countedSince :: "string list \<Rightarrow> LoopState \<Rightarrow> bool" where
  "countedSince base ls \<longleftrightarrow>
     processedCount ls \<le> 50 \<and>
     (\<exists>new. syncedIds (console (world ls)) = base @ new \<and> length new = processedCount ls \<and>
            (\<forall>i\<in>set new. getItem (queueStore (world ls)) i = None))"

text \<open>What identifies a queued request and places it in the replay order.\<close>

definition stamp :: "OfflineRequest \<Rightarrow> string \<times> int" where
  "stamp r = (req_id r, req_timestamp r)"

definition storedStamps :: "OfflineRequest Store \<Rightarrow> (string \<times> int) set" where
  "storedStamps st = stamp ` snd ` set st"

text \<open>
  The invariant of the loop, relative to the requests \<open>base\<close> attempted before the drain:
  the list is sorted; the requests attempted since are in timestamp order and none is newer
  than a listed request still to be processed; and every stored request still to be
  processed is listed.
\<close>

definition fifoInv :: "OfflineRequest list \<Rightarrow> LoopState \<Rightarrow> bool" where
  "fifoInv base ls \<longleftrightarrow>
     sorted (map req_timestamp (requests ls)) \<and>
     (\<exists>new. attempted (console (world ls)) = base @ new \<and>
            sorted (map req_timestamp new) \<and>
            (\<forall>a\<in>set new. \<forall>q\<in>set (requests ls).
                req_id q \<notin> processedIds ls \<longrightarrow> req_timestamp a \<le> req_timestamp q)) \<and>
     (\<forall>p\<in>storedStamps (queueStore (world ls)).
         fst p \<notin> processedIds ls \<longrightarrow> p \<in> stamp ` set (requests ls))"

text \<open>
  \<^verbatim>\<open>queueRequest\<close> stores every request under its own id, and a store has one value per key.
\<close>

definition wfQueue :: "OfflineRequest Store \<Rightarrow> bool" where
  "wfQueue st \<longleftrightarrow> distinct (map fst st) \<and> (\<forall>(k, r)\<in>set st. req_id r = k)"

text \<open>
  Relative to the queue \<open>st0\<close> at the start of the drain: the queue stays well-formed; a
  listed request not yet processed is stored as listed; a stored request not yet processed
  is listed and is as it was at the start; and the successes counted so far have each
  shortened the queue.
\<close>

definition queueInv :: "OfflineRequest Store \<Rightarrow> LoopState \<Rightarrow> bool" where
  "queueInv st0 ls \<longleftrightarrow>
     wfQueue (queueStore (world ls)) \<and>
     (\<forall>q\<in>set (requests ls). req_id q \<notin> processedIds ls \<longrightarrow>
         getItem (queueStore (world ls)) (req_id q) = Some q) \<and>
     (\<forall>k r. getItem (queueStore (world ls)) k = Some r \<longrightarrow> k \<notin> processedIds ls \<longrightarrow>
         r \<in> set (requests ls)) \<and>
     (\<forall>k. k \<notin> processedIds ls \<longrightarrow> getItem (queueStore (world ls)) k = getItem st0 k) \<and>
     processedCount ls + length (queueStore (world ls)) \<le> length st0"

text \<open>
  A request \<open>r\<close> that was stored under \<open>k\<close> when the drain began is settled when the drain
  has dealt with it: with its retries exhausted it has been deleted; otherwise it has been
  attempted, and then either deleted after a successful replay or kept with \<open>retries\<close> one
  higher.
\<close>

definition settled ::
  "Net \<Rightarrow> OfflineRequest list \<Rightarrow> OfflineRequest Store \<Rightarrow> string \<Rightarrow> OfflineRequest \<Rightarrow> bool" where
  "settled net new st k r \<longleftrightarrow>
     (if 3 \<le> req_retries r then getItem st k = None
      else r \<in> set new \<and>
           ((getItem st k = None \<and> (\<exists>s. fst (processRequest net r s) = Inr ())) \<or>
            getItem st k = Some (r\<lparr>req_retries := req_retries r + 1\<rparr>)))"

definition replayInv ::
  "Net \<Rightarrow> OfflineRequest Store \<Rightarrow> OfflineRequest list \<Rightarrow> LoopState \<Rightarrow> bool" where
  "replayInv net st0 base ls \<longleftrightarrow>
     (\<exists>new. attempted (console (world ls)) = base @ new \<and>
        distinct (map req_id new) \<and>
        (\<forall>a\<in>set new. req_id a \<in> processedIds ls \<and> req_retries a < 3 \<and>
                      getItem st0 (req_id a) = Some a) \<and>
        (\<forall>k\<in>processedIds ls. \<forall>r. getItem st0 k = Some r \<longrightarrow>
                      settled net new (queueStore (world ls)) k r))"

text \<open>The state in which a call of \<^verbatim>\<open>syncPendingRequests\<close> leaves the process.\<close>

definition drain :: "Net \<Rightarrow> State \<Rightarrow> State" where
  "drain net s = snd (syncPendingRequests net s)"

text \<open>The attempts a log records for the request with id \<open>k\<close>.\<close>

definition attemptsOf :: "string \<Rightarrow> State \<Rightarrow> OfflineRequest list" where
  "attemptsOf k s = filter (\<lambda>a. req_id a = k) (attempted (console s))"

text \<open>\<^verbatim>\<open>storeOfflineReportImages\<close> stores every group under its own id.\<close>

definition wfGroups :: "OfflineReportImages Store \<Rightarrow> bool" where
  "wfGroups st \<longleftrightarrow> distinct (map fst st) \<and> (\<forall>(k, g)\<in>set st. grp_id g = k)"

definition hasDbItem :: "SavedItem list \<Rightarrow> ReportImage \<Rightarrow> bool" where
  "hasDbItem items storedImage =
     (find (\<lambda>item. si_tempId item = Some (ri_tempId storedImage)) items \<noteq> None)"

text \<open>The metadata of a stored image with a saved item: the real id and the description.\<close>

definition metadataFor :: "SavedItem list \<Rightarrow> ReportImage \<Rightarrow> ImageDatum option" where
  "metadataFor items storedImage =
     (case find (\<lambda>item. si_tempId item = Some (ri_tempId storedImage)) items of
        None \<Rightarrow> None
      | Some dbItem \<Rightarrow>
          Some \<lparr> itemId = si_id dbItem,
                 description = Some (case ri_description storedImage of
                                       None \<Rightarrow> ''Image for item '' @ toString (si_id dbItem)
                                     | Some d \<Rightarrow> if d \<noteq> [] then d
                                                 else ''Image for item '' @ toString (si_id dbItem)) \<rparr>)"

text \<open>
  The images of a group for which the saved report has an item, and what decoding makes of
  a stored image.
\<close>

definition matchedImages :: "ResponseData \<Rightarrow> OfflineReportImages \<Rightarrow> ReportImage list" where
  "matchedImages savedReport storedImages =
     filter (hasDbItem (rd_items savedReport)) (grp_images storedImages)"

definition decode :: "ReportImage \<Rightarrow> Error + File" where
  "decode storedImage = base64ToFile (ri_base64Data storedImage) (ri_fileName storedImage)"

definition decodes :: "ReportImage \<Rightarrow> bool" where
  "decodes storedImage = (case decode storedImage of Inl e \<Rightarrow> False | Inr file \<Rightarrow> True)"

definition decodedFiles :: "ReportImage list \<Rightarrow> File list" where
  "decodedFiles images =
     concat (map (\<lambda>storedImage. case decode storedImage of Inl e \<Rightarrow> [] | Inr file \<Rightarrow> [file])
               images)"

text \<open>
  The upload a reconciliation is to make for a group: the id of the saved report; for each
  matched image, numbered from zero, its real item id and its description; and each
  decoded file under the real item id of its image. Nothing of an unmatched image is in it.
\<close>

definition uploadedForm :: "ResponseData \<Rightarrow> OfflineReportImages \<Rightarrow> FormData" where
  "uploadedForm savedReport storedImages =
     (let metas = List.map_filter (metadataFor (rd_items savedReport)) (grp_images storedImages);
          files = decodedFiles (matchedImages savedReport storedImages)
      in (''reportId'', Text (toString (rd_id savedReport))) #
         concat (map (\<lambda>(index, meta).
                   (''images['' @ digits index @ ''][itemId]'', Text (toString (itemId meta))) #
                   (case description meta of
                      None \<Rightarrow> []
                    | Some d \<Rightarrow> [(''images['' @ digits index @ ''][description]'', Text d)]))
                 (enumerate 0 metas)) @
         map (\<lambda>(meta, file). (''image_'' @ toString (itemId meta), Blob file)) (zip metas files))"

definition uploadCall :: "string \<Rightarrow> FormData \<Rightarrow> NetCall" where
  "uploadCall token form =
     Fetch ''https://ats-system-two.vercel.app/api/upload'' (''Bearer '' @ token) form"

definition bearer :: "State \<Rightarrow> string" where
  "bearer s = (case accessToken s of None \<Rightarrow> [] | Some token \<Rightarrow> token)"

text \<open>An upload is accepted when its reply has a status in 200..299 and a body other than \<^verbatim>\<open>null\<close>.\<close>

definition uploadAccepted :: "NetReply \<Rightarrow> bool" where
  "uploadAccepted reply =
     (case reply of
        TransportFailure \<Rightarrow> False
      | Reply status None \<Rightarrow> False
      | Reply status (Some result) \<Rightarrow> 200 \<le> status \<and> status < 300)"

text \<open>
  Reconciling a saved report with a group, from state \<open>s\<close>. The batch is uploaded when some
  image is matched, every matched image decodes and there is an access token. The group is
  deleted when it has images and either none is matched, or the batch is uploaded and the
  upload is accepted.
\<close>

definition batchUploaded :: "ResponseData \<Rightarrow> OfflineReportImages \<Rightarrow> State \<Rightarrow> bool" where
  "batchUploaded savedReport storedImages s \<longleftrightarrow>
     matchedImages savedReport storedImages \<noteq> [] \<and>
     list_all decodes (matchedImages savedReport storedImages) \<and>
     tokenPresent (accessToken s)"

definition groupDeleted :: "Net \<Rightarrow> ResponseData \<Rightarrow> OfflineReportImages \<Rightarrow> State \<Rightarrow> bool" where
  "groupDeleted net savedReport storedImages s \<longleftrightarrow>
     grp_images storedImages \<noteq> [] \<and>
     (matchedImages savedReport storedImages = [] \<or>
      (batchUploaded savedReport storedImages s \<and>
       uploadAccepted (net (length (netLog s))
                         (uploadCall (bearer s) (uploadedForm savedReport storedImages)))))"

text \<open>The warnings for the images without a saved item.\<close>

definition unmatchedWarnings :: "ResponseData \<Rightarrow> OfflineReportImages \<Rightarrow> LogEntry list" where
  "unmatchedWarnings savedReport storedImages =
     map (\<lambda>i. Warn (noItemWarning (ri_tempId i)))
       (filter (\<lambda>i. \<not> hasDbItem (rd_items savedReport) i) (grp_images storedImages))"

text \<open>The options \<^verbatim>\<open>processApiRequest\<close> passes to \<^verbatim>\<open>directRequest\<close> for a queued request.\<close>

definition replayOptions :: "OfflineRequest \<Rightarrow> RequestOptions" where
  "replayOptions r = \<lparr> opt_method = Some (req_method r), opt_headers = req_headers r,
                        opt_body = req_body r, opt_params = [], opt_skipJsonContentType = False,
                        opt_offlineable = None \<rparr>"

definition replayCall :: "OfflineRequest \<Rightarrow> NetCall" where
  "replayCall r = requestCall (req_endpoint r) (replayOptions r)"

text \<open>
  The network calls made through the gateway, that is by \<^verbatim>\<open>directRequest\<close>; the others are
  form uploads made with \<^verbatim>\<open>fetch\<close>.
\<close>

definition isGatewayCall :: "NetCall \<Rightarrow> bool" where
  "isGatewayCall c = (case c of
                        HttpRequest method url headers body params \<Rightarrow> True
                      | Fetch url authorization form \<Rightarrow> False)"

definition gatewayCalls :: "NetCall list \<Rightarrow> NetCall list" where
  "gatewayCalls calls = filter isGatewayCall calls"

text \<open>The order of replay: by timestamp, and by id among requests of one timestamp.\<close>

definition replayedBefore :: "OfflineRequest \<Rightarrow> OfflineRequest \<Rightarrow> bool" where
  "replayedBefore a b \<longleftrightarrow>
     req_timestamp a < req_timestamp b \<or>
     (req_timestamp a = req_timestamp b \<and> req_id a \<le> req_id b)"

section \<open>Sample data\<close>

text \<open>A process that has just started: online, idle, empty stores, one callback registered.\<close>

definition freshState :: State where
  "freshState = \<lparr> isOnline = True, syncInProgress = False, syncCallbacks = [0],
                   queueStore = [], imagesStore = [], reportImagesStore = [],
                   accessToken = Some ''tok'', storageAvailable = True,
                   netLog = [], console = [], fired = [] \<rparr>"

definition sampleRequest :: "string \<Rightarrow> int \<Rightarrow> nat \<Rightarrow> OfflineRequest" where
  "sampleRequest rid ts n =
     \<lparr> req_id = rid, req_endpoint = ''/notifications/read'', req_method = ''PUT'',
       req_headers = [(''Authorization'', ''Bearer tok'')], req_body = None,
       req_timestamp = ts, req_retries = n, req_type = Api, req_fileData = None \<rparr>"

definition neverReplies :: Net where
  "neverReplies k c = TransportFailure"

definition alwaysOk :: Net where
  "alwaysOk k c = Reply 200 None"

definition serverError :: Net where
  "serverError k c = Reply 500 None"

definition oneFailing :: State where
  "oneFailing = freshState\<lparr>queueStore := [(''a'', sampleRequest ''a'' 1 0)]\<rparr>"




text \<open>
  A saved report with one item, created from temp id \<open>t1\<close>, and two stored groups that both
  mention \<open>t1\<close>; the older one also holds an image for \<open>t2\<close>, which the report does not
  have.
\<close>

definition sampleReport :: ResponseData where
  "sampleReport = \<lparr> rd_message = None, rd_id = 7,
                    rd_items = [\<lparr> si_id = 42, si_tempId = Some ''t1'' \<rparr>] \<rparr>"

definition imageOf :: "string \<Rightarrow> ReportImage" where
  "imageOf t = \<lparr> ri_tempId = t, ri_base64Data = ''data:image/jpeg;base64,AA=='',
                 ri_fileName = ''item-'' @ t @ ''.jpg'', ri_description = None \<rparr>"

definition groupOf :: "string \<Rightarrow> int \<Rightarrow> string list \<Rightarrow> OfflineReportImages" where
  "groupOf gid ts tempIds = \<lparr> grp_id = gid, grp_tempIds = tempIds,
                              grp_images = map imageOf tempIds, grp_timestamp = ts \<rparr>"

definition twoGroups :: State where
  "twoGroups = freshState\<lparr>reportImagesStore :=
                 [(''g2'', groupOf ''g2'' 9 [''t1'']), (''g1'', groupOf ''g1'' 5 [''t1'', ''t2''])]\<rparr>"

definition createRequest :: OfflineRequest where
  "createRequest = \<lparr> req_id = ''c'', req_endpoint = ''/price-reports'', req_method = ''POST'',
                     req_headers = [], req_body = Some ''{}'', req_timestamp = 1,
                     req_retries = 0, req_type = Api, req_fileData = None \<rparr>"

definition savesReport :: Net where
  "savesReport k c = Reply 201 (Some sampleReport)"

text \<open>A server that saves the report and answers every upload with status 500.\<close>

definition rejectsUpload :: Net where
  "rejectsUpload k c = (case c of
                          HttpRequest m u h b p \<Rightarrow> Reply 201 (Some sampleReport)
                        | Fetch u a f \<Rightarrow> Reply 500 None)"

text \<open>
  A process that is offline, and an offlineable request, marking a notification as read,
  that is submitted at clock reading 1700000000000 with the given random suffix for its id.
\<close>

definition offlineState :: State where
  "offlineState = freshState\<lparr>isOnline := False\<rparr>"

definition markRead :: "string \<Rightarrow> string \<Rightarrow> State \<Rightarrow> State" where
  "markRead suffix endpoint s =
     snd (request \<lparr> env_idClock = 1700000000000, env_random = suffix,
                    env_now = 1700000000000, env_ackClock = 1700000000000 \<rparr>
            neverReplies endpoint
            \<lparr> opt_method = Some ''PUT'', opt_headers = [], opt_body = None, opt_params = [],
              opt_skipJsonContentType = False, opt_offlineable = Some True \<rparr> s)"

text \<open>Two such requests, submitted one after the other in the same millisecond.\<close>

definition queuedFirst :: State where
  "queuedFirst = markRead ''k3x9q2m1p'' ''/notifications/1/read'' offlineState"

definition queuedBoth :: State where
  "queuedBoth = markRead ''b81c0dz4e'' ''/notifications/2/read'' queuedFirst"

section \<open>What a replay leaves alone\<close>

lemma attempted_append [simp]: "attempted (xs @ ys) = attempted xs @ attempted ys"
  by (simp add: attempted_def)

lemma syncedIds_append [simp]: "syncedIds (xs @ ys) = syncedIds xs @ syncedIds ys"
  by (simp add: syncedIds_def)

lemma attempted_Warn [simp]: "attempted (map Warn ws) = []"
  by (induction ws) (simp_all add: attempted_def)

lemma syncedIds_Warn [simp]: "syncedIds (map Warn ws) = []"
  by (induction ws) (simp_all add: syncedIds_def)

lemma attempted_single [simp]:
  "attempted [Processing r] = [r]" "attempted [Synced i] = []"
  "attempted [Failed i n] = []" "attempted [Warn w] = []" "attempted [] = []"
  by (simp_all add: attempted_def)

lemma syncedIds_single [simp]:
  "syncedIds [Processing r] = []" "syncedIds [Synced i] = [i]"
  "syncedIds [Failed i n] = []" "syncedIds [Warn w] = []" "syncedIds [] = []"
  by (simp_all add: syncedIds_def)

lemma perform_view: "engineView (snd (perform net c s)) = engineView s"
  by (simp add: perform_def engineView_def)

lemma directRequest_view: "engineView (snd (directRequest net ep opts s)) = engineView s"
  by (simp add: directRequest_def perform_def engineView_def split: NetReply.splits)

lemma uploadImages_view: "engineView (snd (uploadImages net tok u s)) = engineView s"
  by (simp add: uploadImages_def perform_def engineView_def split: NetReply.splits)

lemma uploadImagesForSyncedReport_view:
  "engineView (snd (uploadImagesForSyncedReport net rep g s)) = engineView s"
proof -
  have u: "\<And>tok u s0. engineView (snd (uploadImages net tok u s0)) = engineView s0"
    by (rule uploadImages_view)
  have w: "\<And>ws. engineView (s\<lparr>console := console s @ map Warn ws\<rparr>) = engineView s"
    by (simp add: engineView_def)
  have r: "\<And>k s0. engineView (removeStoredReportImages k s0) = engineView s0"
    by (simp add: engineView_def removeStoredReportImages_def)
  have l: "\<And>m s0. engineView (logLine (Warn m) s0) = engineView s0"
    by (simp add: engineView_def logLine_def)
  show ?thesis
    unfolding uploadImagesForSyncedReport_def
    apply (simp add: Let_def r l w split: prod.splits option.splits sum.splits)
    apply (auto dest!: arg_cong[where f="\<lambda>p. engineView (snd p)"] simp: u w r)
    done
qed

lemma findAndUploadReportImages_view:
  "engineView (snd (findAndUploadReportImages net rep s)) = engineView s"
  by (simp add: findAndUploadReportImages_def Let_def uploadImagesForSyncedReport_view
      split: option.splits)

lemma processApiRequest_view:
  "engineView (snd (processApiRequest net r s)) = engineView s"
proof -
  have d: "\<And>ep opts s0. engineView (snd (directRequest net ep opts s0)) = engineView s0"
    by (rule directRequest_view)
  have f: "\<And>rep s0. engineView (snd (findAndUploadReportImages net rep s0)) = engineView s0"
    by (rule findAndUploadReportImages_view)
  have l: "\<And>m s0. engineView (logLine (Warn m) s0) = engineView s0"
    by (simp add: engineView_def logLine_def)
  show ?thesis
    unfolding processApiRequest_def
    apply (simp add: l split: prod.splits option.splits sum.splits)
    apply (auto dest!: arg_cong[where f="\<lambda>p. engineView (snd p)"] simp: d f)
    done
qed

lemma removeStoredImage_view: "engineView (removeStoredImage k s) = engineView s"
  by (simp add: removeStoredImage_def engineView_def)

lemma appendStoredFiles_view:
  "engineView (snd (appendStoredFiles i ks ms fd s)) = engineView s"
  by (induction i ks ms fd s rule: appendStoredFiles.induct)
     (auto simp: removeStoredImage_view split: option.splits sum.splits)

lemma processImageUpload_view:
  "engineView (snd (processImageUpload net r s)) = engineView s"
proof -
  have a: "\<And>i ks ms fd s0. engineView (snd (appendStoredFiles i ks ms fd s0)) = engineView s0"
    by (rule appendStoredFiles_view)
  have p: "\<And>c s0. engineView (snd (perform net c s0)) = engineView s0"
    by (rule perform_view)
  show ?thesis
    unfolding processImageUpload_def
    apply (simp split: prod.splits option.splits sum.splits NetReply.splits)
    apply (auto dest!: arg_cong[where f="\<lambda>p. engineView (snd p)"] simp: a p)
    done
qed

lemma processRequest_view:
  "engineView (snd (processRequest net r s)) = engineView s"
  by (simp add: processRequest_def processImageUpload_view processApiRequest_view)

lemma processRequest_fields:
  assumes "processRequest net r s = (res, s')"
  shows "queueStore s' = queueStore s" "syncInProgress s' = syncInProgress s"
    "storageAvailable s' = storageAvailable s" "syncCallbacks s' = syncCallbacks s"
    "fired s' = fired s" "attempted (console s') = attempted (console s)"
    "syncedIds (console s') = syncedIds (console s)" "accessToken s' = accessToken s"
    "isOnline s' = isOnline s"
  using processRequest_view[of net r s] assms by (simp_all add: engineView_def)

section \<open>Termination of the drain loop\<close>

lemma set_removeItem_subset: "set (removeItem k st) \<subseteq> set st"
  by (induction st) auto

lemma storedIds_removeItem: "storedIds (removeItem k st) \<subseteq> storedIds st"
  using set_removeItem_subset[of k st] by (auto simp: storedIds_def)

lemma getItem_Some_mem: "getItem st k = Some v \<Longrightarrow> (k, v) \<in> set st"
  by (induction st) (auto split: if_splits)

lemma storedIds_setItem_same:
  "getItem st k = Some v \<Longrightarrow> req_id v' = req_id v \<Longrightarrow> storedIds (setItem k v' st) = storedIds st"
  by (induction st) (auto simp: storedIds_def split: if_splits)

lemma storedIds_updateRequestRetry:
  "storedIds (queueStore (updateRequestRetry rid n s)) = storedIds (queueStore s)"
  by (auto simp: updateRequestRetry_def storedIds_setItem_same split: option.splits)

lemma set_getPendingRequests: "set (getPendingRequests s) = snd ` set (queueStore s)"
  by (simp add: getPendingRequests_def iterate_def)

lemma finite_pendingIds: "finite (pendingIds ls)"
  by (simp add: pendingIds_def storedIds_def)

lemma pendingIds_shrink:
  assumes "h \<in> pendingIds ls" "pendingIds ls' \<subseteq> pendingIds ls - {h}"
  shows "card (pendingIds ls') < card (pendingIds ls)"
proof -
  have "pendingIds ls' \<subset> pendingIds ls" using assms by auto
  then show ?thesis by (simp add: finite_pendingIds psubset_card_mono)
qed

lemma syncBody_decreases:
  assumes "loopCondition ls"
  shows "card (pendingIds (syncBody net ls)) < card (pendingIds ls)
       \<or> (card (pendingIds (syncBody net ls)) \<le> card (pendingIds ls)
          \<and> length (requests (syncBody net ls)) < length (requests ls))"
proof -
  from assms obtain r rest where rq: "requests ls = r # rest"
    by (cases "requests ls") (auto simp: loopCondition_def)
  show ?thesis
  proof (cases "req_id r \<in> processedIds ls")
    case True
    then have b: "syncBody net ls = ls\<lparr>requests := rest\<rparr>" by (simp add: syncBody_def rq)
    have "pendingIds (ls\<lparr>requests := rest\<rparr>) \<subseteq> pendingIds ls"
      by (auto simp: pendingIds_def rq)
    then have "card (pendingIds (ls\<lparr>requests := rest\<rparr>)) \<le> card (pendingIds ls)"
      by (simp add: card_mono finite_pendingIds)
    then show ?thesis by (simp add: b rq)
  next
    case False
    then have h: "req_id r \<in> pendingIds ls" by (simp add: pendingIds_def rq)
    have "pendingIds (syncBody net ls) \<subseteq> pendingIds ls - {req_id r}"
    proof (cases "req_retries r \<ge> 3")
      case True
      with False show ?thesis
        using storedIds_removeItem[of "req_id r" "queueStore (world ls)"]
        by (auto simp: syncBody_def rq Let_def pendingIds_def set_getPendingRequests
            removeRequest_def storedIds_def)
    next
      case lt: False
      show ?thesis
      proof (cases "getItem (queueStore (world ls)) (req_id r)")
        case None
        with False lt show ?thesis by (auto simp: syncBody_def rq pendingIds_def)
      next
        case (Some cur)
        obtain res s1 where p: "processRequest net r (logLine (Processing r) (world ls)) = (res, s1)"
          by (cases "processRequest net r (logLine (Processing r) (world ls))")
        have q: "queueStore s1 = queueStore (world ls)"
          using processRequest_fields(1)[OF p] by (simp add: logLine_def)
        show ?thesis
        proof (cases res)
          case (Inl e)
          with False lt Some p q show ?thesis
            using storedIds_updateRequestRetry[of "req_id r" "Suc (req_retries r)" s1]
            by (auto simp: syncBody_def rq pendingIds_def Let_def logLine_def)
        next
          case (Inr u)
          with False lt Some p q show ?thesis
            using storedIds_removeItem[of "req_id r" "queueStore (world ls)"]
            by (auto simp: syncBody_def rq Let_def pendingIds_def set_getPendingRequests
                removeRequest_def logLine_def storedIds_def)
        qed
      qed
    qed
    with h show ?thesis by (simp add: pendingIds_shrink)
  qed
qed

termination syncLoop
proof (relation "measures [\<lambda>(net, ls). card (pendingIds ls), \<lambda>(net, ls). length (requests ls)]")
  show "wf (measures [\<lambda>(net, ls). card (pendingIds ls), \<lambda>(net, ls). length (requests ls)])"
    by simp
next
  fix net ls
  assume "loopCondition ls"
  from syncBody_decreases[OF this, of net]
  show "((net, syncBody net ls), (net, ls))
          \<in> measures [\<lambda>(net, ls). card (pendingIds ls), \<lambda>(net, ls). length (requests ls)]"
    by auto
qed

declare syncLoop.simps [simp del]

section \<open>Facts about the store\<close>

lemma getPendingRequests_sorted:
  "sorted (map req_timestamp (getPendingRequests s))"
  by (simp add: getPendingRequests_def)

lemma getPendingRequests_mset:
  "mset (getPendingRequests s) = mset (map snd (queueStore s))"
  by (simp add: getPendingRequests_def iterate_def)

section \<open>The six ways through the loop body\<close>

lemma syncBody_cases:
  obtains
    (Empty) "requests ls = []" "syncBody net ls = ls"
  | (Skip) r rest where "requests ls = r # rest" "req_id r \<in> processedIds ls"
      "syncBody net ls = ls\<lparr>requests := rest\<rparr>"
  | (Exhausted) r rest where "requests ls = r # rest" "req_id r \<notin> processedIds ls"
      "req_retries r \<ge> 3"
      "syncBody net ls =
         ls\<lparr>requests := getPendingRequests (removeRequest (req_id r) (world ls)),
            processedIds := insert (req_id r) (processedIds ls),
            world := removeRequest (req_id r) (world ls)\<rparr>"
  | (Gone) r rest where "requests ls = r # rest" "req_id r \<notin> processedIds ls"
      "req_retries r < 3" "getItem (queueStore (world ls)) (req_id r) = None"
      "syncBody net ls =
         ls\<lparr>requests := rest, processedIds := insert (req_id r) (processedIds ls)\<rparr>"
  | (Success) r rest cur s1 where "requests ls = r # rest" "req_id r \<notin> processedIds ls"
      "req_retries r < 3" "getItem (queueStore (world ls)) (req_id r) = Some cur"
      "processRequest net r (logLine (Processing r) (world ls)) = (Inr (), s1)"
      "syncBody net ls =
         ls\<lparr>requests := getPendingRequests (logLine (Synced (req_id r))
                                               (removeRequest (req_id r) s1)),
            processedIds := insert (req_id r) (processedIds ls),
            processedCount := processedCount ls + 1,
            world := logLine (Synced (req_id r)) (removeRequest (req_id r) s1)\<rparr>"
  | (Failure) r rest cur e s1 where "requests ls = r # rest" "req_id r \<notin> processedIds ls"
      "req_retries r < 3" "getItem (queueStore (world ls)) (req_id r) = Some cur"
      "processRequest net r (logLine (Processing r) (world ls)) = (Inl e, s1)"
      "syncBody net ls =
         ls\<lparr>requests := rest,
            processedIds := insert (req_id r) (processedIds ls),
            world := logLine (Failed (req_id r) (req_retries r + 1))
                       (updateRequestRetry (req_id r) (req_retries r + 1) s1)\<rparr>"
proof (cases "requests ls")
  case Nil
  then show ?thesis using Empty by (simp add: syncBody_def)
next
  case (Cons r rest)
  show ?thesis
  proof (cases "req_id r \<in> processedIds ls")
    case True
    then show ?thesis using Skip[OF Cons] by (simp add: syncBody_def Cons)
  next
    case unprocessed: False
    show ?thesis
    proof (cases "req_retries r \<ge> 3")
      case True
      then show ?thesis using Exhausted[OF Cons unprocessed]
        by (simp add: syncBody_def Cons unprocessed Let_def)
    next
      case False
      then have lt: "req_retries r < 3" by simp
      show ?thesis
      proof (cases "getItem (queueStore (world ls)) (req_id r)")
        case None
        then show ?thesis using Gone[OF Cons unprocessed lt] False
          by (simp add: syncBody_def Cons unprocessed)
      next
        case (Some cur)
        obtain res s1 where
          p: "processRequest net r (logLine (Processing r) (world ls)) = (res, s1)"
          by (cases "processRequest net r (logLine (Processing r) (world ls))")
        show ?thesis
        proof (cases res)
          case (Inl e)
          then show ?thesis using Failure[OF Cons unprocessed lt Some] p False
            by (simp add: syncBody_def Cons unprocessed Some Let_def)
        next
          case (Inr u)
          then show ?thesis using Success[OF Cons unprocessed lt Some] p False
            by (simp add: syncBody_def Cons unprocessed Some Let_def)
        qed
      qed
    qed
  qed
qed

section \<open>Single-flight drain\<close>

lemma syncBody_syncInProgress:
  "syncInProgress (world (syncBody net ls)) = syncInProgress (world ls)"
proof (cases rule: syncBody_cases[of ls net])
  case (Success r rest cur s1)
  then show ?thesis
    using processRequest_fields(2)[OF Success(5)]
    by (simp add: removeRequest_def logLine_def)
next
  case (Failure r rest cur e s1)
  then show ?thesis
    using processRequest_fields(2)[OF Failure(5)]
    by (simp add: updateRequestRetry_def logLine_def split: option.splits)
qed (simp_all add: removeRequest_def)

lemma syncBody_iterated_syncInProgress:
  "syncInProgress (world ((syncBody net ^^ n) ls)) = syncInProgress (world ls)"
  by (induction n) (simp_all add: syncBody_syncInProgress)

text \<open>
  C3. A call of \<^verbatim>\<open>syncPendingRequests\<close> that finds \<open>syncInProgress\<close> set returns at once and
  leaves the whole state as it was: no network call is added to the log, no store changes
  and no callback fires. A drain that does start sets the flag first and holds it through
  every pass of its loop, so a second call that arrives after any number \<open>n\<close> of passes is
  such a call: only one drain is active at a time.
\<close>

theorem single_flight_drain:
  "(syncInProgress s \<longrightarrow> syncPendingRequests net s = (Inr (), s)) \<and>
   (\<forall>n net'. let running = world ((syncBody net ^^ n) (startLoop (s\<lparr>syncInProgress := True\<rparr>)))
             in syncInProgress running \<and> syncPendingRequests net' running = (Inr (), running))"
  by (simp add: syncPendingRequests_def Let_def syncBody_iterated_syncInProgress startLoop_def)

theorem single_flight_drain_witness:
  "syncInProgress (freshState\<lparr>syncInProgress := True, queueStore := [(''a'', sampleRequest ''a'' 1 0)]\<rparr>) \<and>
   syncPendingRequests alwaysOk
     (freshState\<lparr>syncInProgress := True, queueStore := [(''a'', sampleRequest ''a'' 1 0)]\<rparr>)
   = (Inr (), freshState\<lparr>syncInProgress := True, queueStore := [(''a'', sampleRequest ''a'' 1 0)]\<rparr>)"
  using single_flight_drain
          [of "freshState\<lparr>syncInProgress := True, queueStore := [(''a'', sampleRequest ''a'' 1 0)]\<rparr>"
              alwaysOk]
  by simp

section \<open>The gateway surfaces every failure\<close>

lemma getItem_setItem_same [simp]: "getItem (setItem k v st) k = Some v"
  by (induction st) auto

lemma getItem_setItem_other [simp]: "k' \<noteq> k \<Longrightarrow> getItem (setItem k v st) k' = getItem st k'"
  by (induction st) auto

lemma queueStore_logLine [simp]: "queueStore (logLine e s) = queueStore s"
  by (simp add: logLine_def)

lemma netLog_logLine [simp]: "netLog (logLine e s) = netLog s"
  by (simp add: logLine_def)

lemma getItem_updateRequestRetry:
  "getItem (queueStore s) rid = Some r \<Longrightarrow>
   getItem (queueStore (updateRequestRetry rid n s)) rid = Some (r\<lparr>req_retries := n\<rparr>)"
  by (simp add: updateRequestRetry_def)

lemma directRequest_http_error:
  assumes "\<forall>c. net (length (netLog s)) c = Reply status data" "status < 200 \<or> status \<ge> 300"
  shows "fst (directRequest net ep opts s)
         = Inl (ApiError (httpErrorMessage data status) status)"
  using assms by (simp add: directRequest_def perform_def)

lemma directRequest_transport_failure:
  assumes "\<forall>c. net (length (netLog s)) c = TransportFailure"
  shows "fst (directRequest net ep opts s) = Inl (ApiError ''Network error occurred'' 0)"
  using assms by (simp add: directRequest_def perform_def)

lemma directRequest_state:
  "snd (directRequest net ep opts s) = s\<lparr>netLog := netLog s @ [requestCall ep opts]\<rparr>"
  by (simp add: directRequest_def perform_def split: NetReply.splits)

lemma processApiRequest_failure:
  assumes "fst (directRequest net (req_endpoint r)
             \<lparr> opt_method = Some (req_method r), opt_headers = req_headers r,
               opt_body = req_body r, opt_params = [], opt_skipJsonContentType = False,
               opt_offlineable = None \<rparr> s) = Inl e"
  shows "processApiRequest net r s
         = (Inl e, snd (directRequest net (req_endpoint r)
             \<lparr> opt_method = Some (req_method r), opt_headers = req_headers r,
               opt_body = req_body r, opt_params = [], opt_skipJsonContentType = False,
               opt_offlineable = None \<rparr> s))"
  using assms
  by (cases "directRequest net (req_endpoint r)
             \<lparr> opt_method = Some (req_method r), opt_headers = req_headers r,
               opt_body = req_body r, opt_params = [], opt_skipJsonContentType = False,
               opt_offlineable = None \<rparr> s")
     (simp add: processApiRequest_def)

lemma appendStoredFiles_netLog:
  "netLog (snd (appendStoredFiles i ks ms fd s)) = netLog s"
  by (induction i ks ms fd s rule: appendStoredFiles.induct)
     (auto simp: removeStoredImage_def split: option.splits sum.splits)

lemma processImageUpload_failures_alike:
  assumes h: "\<forall>c. netH (length (netLog s)) c = Reply status data"
    and bad: "status < 200 \<or> status \<ge> 300"
    and t: "\<forall>c. netT (length (netLog s)) c = TransportFailure"
  shows "\<exists>eH eT s1. processImageUpload netH r s = (Inl eH, s1) \<and>
                     processImageUpload netT r s = (Inl eT, s1)"
proof (cases "req_fileData r")
  case None
  then show ?thesis by (simp add: processImageUpload_def)
next
  case (Some fd)
  obtain res s1 where a: "appendStoredFiles 0 (filePaths fd) (imageData fd)
                  [(''reportId'', Text (toString (reportId fd)))] s = (res, s1)"
    by (cases "appendStoredFiles 0 (filePaths fd) (imageData fd)
                  [(''reportId'', Text (toString (reportId fd)))] s") auto
  have len: "netLog s1 = netLog s"
    using appendStoredFiles_netLog[of 0 "filePaths fd" "imageData fd"
        "[(''reportId'', Text (toString (reportId fd)))]" s] a by simp
  show ?thesis
  proof (cases res)
    case (Inl e)
    then show ?thesis using Some a by (simp add: processImageUpload_def)
  next
    case (Inr formData)
    define c where "c = Fetch UPLOAD_URL
                          (case getItem (req_headers r) ''Authorization'' of
                             None \<Rightarrow> [] | Some v \<Rightarrow> v)
                          (formData @ metadataFields (imageData fd))"
    have pH: "perform netH c s1 = (Reply status data, s1\<lparr>netLog := netLog s1 @ [c]\<rparr>)"
      using h by (simp add: perform_def len)
    have pT: "perform netT c s1 = (TransportFailure, s1\<lparr>netLog := netLog s1 @ [c]\<rparr>)"
      using t by (simp add: perform_def len)
    have "processImageUpload netH r s
          = (Inl (JsError (''HTTP error! status: '' @ toString status)),
             s1\<lparr>netLog := netLog s1 @ [c]\<rparr>)"
      using Some a Inr pH bad by (simp add: processImageUpload_def c_def statusOk_def)
    moreover have "processImageUpload netT r s
          = (Inl (JsError ''Failed to fetch''), s1\<lparr>netLog := netLog s1 @ [c]\<rparr>)"
      using Some a Inr pT by (simp add: processImageUpload_def c_def)
    ultimately show ?thesis by blast
  qed
qed

lemma processApiRequest_failures_alike:
  assumes h: "\<forall>c. netH (length (netLog s)) c = Reply status data"
    and bad: "status < 200 \<or> status \<ge> 300"
    and t: "\<forall>c. netT (length (netLog s)) c = TransportFailure"
  shows "\<exists>eH eT s1. processApiRequest netH r s = (Inl eH, s1) \<and>
                     processApiRequest netT r s = (Inl eT, s1)"
proof -
  define o0 where "o0 = \<lparr> opt_method = Some (req_method r), opt_headers = req_headers r,
               opt_body = req_body r, opt_params = [], opt_skipJsonContentType = False,
               opt_offlineable = None \<rparr>"
  define s1 where "s1 = snd (directRequest netT (req_endpoint r) o0 s)"
  have "processApiRequest netH r s
           = (Inl (ApiError (httpErrorMessage data status) status), s1)"
    using h bad directRequest_http_error[of netH s status data "req_endpoint r" o0]
      directRequest_state[of netH "req_endpoint r" o0 s]
      directRequest_state[of netT "req_endpoint r" o0 s]
      processApiRequest_failure[of netH r s "ApiError (httpErrorMessage data status) status"]
    by (simp add: o0_def s1_def)
  moreover have "processApiRequest netT r s = (Inl (ApiError ''Network error occurred'' 0), s1)"
    using t directRequest_transport_failure[of netT s "req_endpoint r" o0]
      processApiRequest_failure[of netT r s "ApiError ''Network error occurred'' 0"]
    by (simp add: o0_def s1_def)
  ultimately show ?thesis by blast
qed

lemma replay_failures_alike:
  assumes a: "(\<forall>c. netH (length (netLog (world ls))) c = Reply status data) \<and>
    (status < 200 \<or> status \<ge> 300) \<and>
    (\<forall>c. netT (length (netLog (world ls))) c = TransportFailure) \<and>
    requests ls = r # rest \<and> req_id r \<notin> processedIds ls \<and> req_retries r < 3 \<and>
    getItem (queueStore (world ls)) (req_id r) = Some r"
  shows "syncBody netH ls = syncBody netT ls \<and>
        getItem (queueStore (world (syncBody netT ls))) (req_id r)
          = Some (r\<lparr>req_retries := req_retries r + 1\<rparr>)"
proof -
  define s0 where "s0 = logLine (Processing r) (world ls)"
  have len: "netLog s0 = netLog (world ls)" by (simp add: s0_def)
  have "\<exists>eH eT s1. processRequest netH r s0 = (Inl eH, s1) \<and>
                    processRequest netT r s0 = (Inl eT, s1)"
    using a processImageUpload_failures_alike[of netH s0 status data netT r]
      processApiRequest_failures_alike[of netH s0 status data netT r]
    by (simp add: processRequest_def len)
  then obtain eH eT s1 where h: "processRequest netH r s0 = (Inl eH, s1)"
    and t: "processRequest netT r s0 = (Inl eT, s1)" by blast
  have bodyH: "syncBody netH ls =
         ls\<lparr>requests := rest, processedIds := insert (req_id r) (processedIds ls),
            world := logLine (Failed (req_id r) (req_retries r + 1))
                       (updateRequestRetry (req_id r) (req_retries r + 1) s1)\<rparr>"
    using a h by (simp add: syncBody_def Let_def s0_def)
  have bodyT: "syncBody netT ls =
         ls\<lparr>requests := rest, processedIds := insert (req_id r) (processedIds ls),
            world := logLine (Failed (req_id r) (req_retries r + 1))
                       (updateRequestRetry (req_id r) (req_retries r + 1) s1)\<rparr>"
    using a t by (simp add: syncBody_def Let_def s0_def)
  have q: "queueStore s1 = queueStore (world ls)"
    using processRequest_fields(1)[OF t] by (simp add: s0_def)
  have "getItem (queueStore (updateRequestRetry (req_id r) (req_retries r + 1) s1)) (req_id r)
        = Some (r\<lparr>req_retries := req_retries r + 1\<rparr>)"
    using a q getItem_updateRequestRetry[of s1 "req_id r" r "req_retries r + 1"] by simp
  then show ?thesis
    by (simp add: bodyH bodyT)
qed

text \<open>
  C8. Whatever the request, a reply with a status outside 200..299 makes \<^verbatim>\<open>directRequest\<close>
  raise an \<^verbatim>\<open>ApiError\<close> that carries that status, and a call that gets no reply makes it
  raise an \<^verbatim>\<open>ApiError\<close> with status 0; it returns a body in neither case. In the drain, a
  queued request at the head of the list, of either type, whose replay meets either failure
  ends the pass in the very same state: still stored, with \<open>retries\<close> one higher.
\<close>

theorem gateway_error_surfacing:
  "((\<forall>c. netH (length (netLog s)) c = Reply status data) \<and> (status < 200 \<or> status \<ge> 300)
      \<longrightarrow> fst (directRequest netH ep opts s)
           = Inl (ApiError (httpErrorMessage data status) status)) \<and>
   ((\<forall>c. netT (length (netLog s)) c = TransportFailure)
      \<longrightarrow> fst (directRequest netT ep opts s) = Inl (ApiError ''Network error occurred'' 0)) \<and>
   ((\<forall>c. netH (length (netLog (world ls))) c = Reply status data) \<and>
    (status < 200 \<or> status \<ge> 300) \<and>
    (\<forall>c. netT (length (netLog (world ls))) c = TransportFailure) \<and>
    requests ls = r # rest \<and> req_id r \<notin> processedIds ls \<and> req_retries r < 3 \<and>
    getItem (queueStore (world ls)) (req_id r) = Some r
      \<longrightarrow> syncBody netH ls = syncBody netT ls \<and>
          getItem (queueStore (world (syncBody netT ls))) (req_id r)
            = Some (r\<lparr>req_retries := req_retries r + 1\<rparr>))"
  using directRequest_http_error[of netH s status data ep opts]
    directRequest_transport_failure[of netT s ep opts]
    replay_failures_alike[of netH ls status data netT r rest]
  by blast

theorem gateway_error_surfacing_witness:
  "fst (directRequest serverError ''/notifications'' 
          \<lparr> opt_method = None, opt_headers = [], opt_body = None, opt_params = [],
            opt_skipJsonContentType = False, opt_offlineable = None \<rparr> freshState)
     = Inl (ApiError ''HTTP error! status: 500'' 500) \<and>
   fst (directRequest neverReplies ''/notifications'' 
          \<lparr> opt_method = None, opt_headers = [], opt_body = None, opt_params = [],
            opt_skipJsonContentType = False, opt_offlineable = None \<rparr> freshState)
     = Inl (ApiError ''Network error occurred'' 0) \<and>
   syncBody serverError (startLoop (freshState\<lparr>queueStore := [(''a'', sampleRequest ''a'' 1 0)]\<rparr>))
     = syncBody neverReplies (startLoop (freshState\<lparr>queueStore := [(''a'', sampleRequest ''a'' 1 0)]\<rparr>)) \<and>
   getItem (queueStore (world (syncBody neverReplies
              (startLoop (freshState\<lparr>queueStore := [(''a'', sampleRequest ''a'' 1 0)]\<rparr>))))) ''a''
     = Some (sampleRequest ''a'' 1 1)"
  using gateway_error_surfacing
     [where netH = serverError and s = freshState and status = 500 and data = None
        and netT = neverReplies and ep = "''/notifications''"
        and opts = "\<lparr> opt_method = None, opt_headers = [], opt_body = None, opt_params = [],
            opt_skipJsonContentType = False, opt_offlineable = None \<rparr>"
        and ls = "startLoop (freshState\<lparr>queueStore := [(''a'', sampleRequest ''a'' 1 0)]\<rparr>)"
        and r = "sampleRequest ''a'' 1 0" and rest = "[]"]
  by (simp add: serverError_def neverReplies_def freshState_def startLoop_def
      getPendingRequests_def iterate_def sampleRequest_def httpErrorMessage_def toString_def
      digits.simps)

section \<open>Requests that may not be queued\<close>

lemma directRequest_typed:
  "(\<exists>d. fst (directRequest net ep opts s) = Inr d) \<or>
   (\<exists>m st. fst (directRequest net ep opts s) = Inl (ApiError m st))"
  by (simp add: directRequest_def perform_def split: NetReply.splits)

text \<open>
  C10. A request whose \<open>offlineable\<close> option is absent or false goes straight to
  \<^verbatim>\<open>directRequest\<close>, online or offline: exactly one call is handed to the network, the
  queue is left as it was, and the caller gets either the response body or an \<^verbatim>\<open>ApiError\<close>,
  never a queued acknowledgement.
\<close>

theorem non_offlineable_never_queued:
  assumes "opt_offlineable options = None \<or> opt_offlineable options = Some False"
  shows "queueStore (snd (request env net endpoint options s)) = queueStore s \<and>
         netLog (snd (request env net endpoint options s))
           = netLog s @ [requestCall endpoint options] \<and>
         ((\<exists>d. request env net endpoint options s
                 = (Inr (Response d), snd (directRequest net endpoint options s)) \<and>
               fst (directRequest net endpoint options s) = Inr d) \<or>
          (\<exists>m st. request env net endpoint options s
                 = (Inl (ApiError m st), snd (directRequest net endpoint options s)) \<and>
               fst (directRequest net endpoint options s) = Inl (ApiError m st))) \<and>
         (\<forall>ack. fst (request env net endpoint options s) \<noteq> Inr (Queued ack))"
proof -
  have off: "(case opt_offlineable options of None \<Rightarrow> False | Some b \<Rightarrow> b) = False"
    using assms by auto
  obtain res s1 where d: "directRequest net endpoint options s = (res, s1)"
    by (cases "directRequest net endpoint options s")
  have s1: "s1 = s\<lparr>netLog := netLog s @ [requestCall endpoint options]\<rparr>"
    using directRequest_state[of net endpoint options s] d by simp
  have r: "request env net endpoint options s
           = (case res of Inl e \<Rightarrow> (Inl e, s1) | Inr data \<Rightarrow> (Inr (Response data), s1))"
    by (simp add: request_def off d split: sum.splits)
  from directRequest_typed[of net endpoint options s] d
  consider (ok) dd where "res = Inr dd" | (err) m st where "res = Inl (ApiError m st)"
    by auto
  then show ?thesis
  proof cases
    case ok
    then show ?thesis by (simp add: r d s1)
  next
    case err
    then show ?thesis by (simp add: r d s1)
  qed
qed

theorem non_offlineable_never_queued_witness:
  "(opt_offlineable \<lparr> opt_method = Some ''POST'', opt_headers = [], opt_body = Some ''{}'',
       opt_params = [], opt_skipJsonContentType = False, opt_offlineable = None \<rparr> = None
      \<or> opt_offlineable \<lparr> opt_method = Some ''POST'', opt_headers = [], opt_body = Some ''{}'',
       opt_params = [], opt_skipJsonContentType = False, opt_offlineable = None \<rparr> = Some False) \<and>
   queueStore (snd (request \<lparr> env_idClock = 1, env_random = ''x'', env_now = 1, env_ackClock = 1 \<rparr>
       neverReplies ''/auth/login''
       \<lparr> opt_method = Some ''POST'', opt_headers = [], opt_body = Some ''{}'',
         opt_params = [], opt_skipJsonContentType = False, opt_offlineable = None \<rparr>
       (freshState\<lparr>isOnline := False\<rparr>))) = [] \<and>
   fst (request \<lparr> env_idClock = 1, env_random = ''x'', env_now = 1, env_ackClock = 1 \<rparr>
       neverReplies ''/auth/login''
       \<lparr> opt_method = Some ''POST'', opt_headers = [], opt_body = Some ''{}'',
         opt_params = [], opt_skipJsonContentType = False, opt_offlineable = None \<rparr>
       (freshState\<lparr>isOnline := False\<rparr>)) = Inl (ApiError ''Network error occurred'' 0)"
  using non_offlineable_never_queued
    [where options = "\<lparr> opt_method = Some ''POST'', opt_headers = [], opt_body = Some ''{}'',
         opt_params = [], opt_skipJsonContentType = False, opt_offlineable = None \<rparr>"
       and env = "\<lparr> env_idClock = 1, env_random = ''x'', env_now = 1, env_ackClock = 1 \<rparr>"
       and net = neverReplies and endpoint = "''/auth/login''"
       and s = "freshState\<lparr>isOnline := False\<rparr>"]
  by (simp add: freshState_def directRequest_def perform_def neverReplies_def)

section \<open>Queueing an offline request\<close>

text \<open>
  C7. An offlineable request submitted while offline makes no network call. When the store
  accepts the write, the caller gets the acknowledgement with the id that \<^verbatim>\<open>generateId\<close>
  produced, and the queue holds under that id the request as submitted, with \<open>retries = 0\<close>
  and the clock reading as \<open>timestamp\<close>. When the store rejects the write, the caller gets
  an \<^verbatim>\<open>ApiError\<close> and the state, the queue with it, is as before.
\<close>

theorem enqueue_semantics:
  assumes "opt_offlineable options = Some True" and "\<not> isOnline s"
  shows "netLog (snd (request env net endpoint options s)) = netLog s \<and>
         (storageAvailable s \<longrightarrow>
            fst (request env net endpoint options s)
              = Inr (Queued \<lparr> ack_success = True,
                               ack_message = ''Request queued for offline execution'',
                               ack_requestId = generateId env,
                               ack_queuedAt = env_ackClock env,
                               ack_offline = True \<rparr>) \<and>
            getItem (queueStore (snd (request env net endpoint options s))) (generateId env)
              = Some \<lparr> req_id = generateId env, req_endpoint = endpoint,
                       req_method = (case opt_method options of None \<Rightarrow> ''GET'' | Some m \<Rightarrow> m),
                       req_headers = opt_headers options, req_body = opt_body options,
                       req_timestamp = env_now env, req_retries = 0,
                       req_type = Api, req_fileData = None \<rparr>) \<and>
         (\<not> storageAvailable s \<longrightarrow>
            request env net endpoint options s
              = (Inl (ApiError ''Failed to queue offline request'' 0), s))"
  using assms
  by (simp add: request_def handleOfflineRequest_def queueRequest_def Let_def)

theorem enqueue_semantics_witness:
  "opt_offlineable \<lparr> opt_method = Some ''POST'', opt_headers = [], opt_body = Some ''{}'',
       opt_params = [], opt_skipJsonContentType = False, opt_offlineable = Some True \<rparr> = Some True \<and>
   \<not> isOnline (freshState\<lparr>isOnline := False\<rparr>) \<and>
   storageAvailable (freshState\<lparr>isOnline := False\<rparr>) \<and>
   \<not> storageAvailable (freshState\<lparr>isOnline := False, storageAvailable := False\<rparr>) \<and>
   request \<lparr> env_idClock = 17, env_random = ''k3x'', env_now = 18, env_ackClock = 19 \<rparr>
       alwaysOk ''/price-reports''
       \<lparr> opt_method = Some ''POST'', opt_headers = [], opt_body = Some ''{}'',
         opt_params = [], opt_skipJsonContentType = False, opt_offlineable = Some True \<rparr>
       (freshState\<lparr>isOnline := False, storageAvailable := False\<rparr>)
     = (Inl (ApiError ''Failed to queue offline request'' 0),
        freshState\<lparr>isOnline := False, storageAvailable := False\<rparr>) \<and>
   getItem (queueStore (snd (request
       \<lparr> env_idClock = 17, env_random = ''k3x'', env_now = 18, env_ackClock = 19 \<rparr>
       alwaysOk ''/price-reports''
       \<lparr> opt_method = Some ''POST'', opt_headers = [], opt_body = Some ''{}'',
         opt_params = [], opt_skipJsonContentType = False, opt_offlineable = Some True \<rparr>
       (freshState\<lparr>isOnline := False\<rparr>)))) ''req_17_k3x''
     = Some \<lparr> req_id = ''req_17_k3x'', req_endpoint = ''/price-reports'',
              req_method = ''POST'', req_headers = [], req_body = Some ''{}'',
              req_timestamp = 18, req_retries = 0, req_type = Api, req_fileData = None \<rparr>"
  using enqueue_semantics
    [where options = "\<lparr> opt_method = Some ''POST'', opt_headers = [], opt_body = Some ''{}'',
         opt_params = [], opt_skipJsonContentType = False, opt_offlineable = Some True \<rparr>"
       and env = "\<lparr> env_idClock = 17, env_random = ''k3x'', env_now = 18, env_ackClock = 19 \<rparr>"
       and net = alwaysOk and endpoint = "''/price-reports''"
       and s = "freshState\<lparr>isOnline := False\<rparr>"]
    enqueue_semantics
    [where options = "\<lparr> opt_method = Some ''POST'', opt_headers = [], opt_body = Some ''{}'',
         opt_params = [], opt_skipJsonContentType = False, opt_offlineable = Some True \<rparr>"
       and env = "\<lparr> env_idClock = 17, env_random = ''k3x'', env_now = 18, env_ackClock = 19 \<rparr>"
       and net = alwaysOk and endpoint = "''/price-reports''"
       and s = "freshState\<lparr>isOnline := False, storageAvailable := False\<rparr>"]
  by (simp add: freshState_def generateId_def toString_def digits.simps)

section \<open>Reasoning about the loop\<close>

lemma syncLoop_invariant:
  assumes "P ls" and "\<And>l. P l \<Longrightarrow> loopCondition l \<Longrightarrow> P (syncBody net l)"
  shows "P (syncLoop net ls) \<and> \<not> loopCondition (syncLoop net ls)"
  using assms
proof (induction net ls rule: syncLoop.induct)
  case (1 net ls)
  show ?case
  proof (cases "loopCondition ls")
    case True
    then have "P (syncBody net ls)" using 1(2,3) by simp
    then show ?thesis using 1(1)[OF True _ 1(3)] True by (simp add: syncLoop.simps[of net ls])
  next
    case False
    then show ?thesis using 1(2) by (simp add: syncLoop.simps[of net ls])
  qed
qed

lemma syncLoop_passes:
  "\<exists>n. syncLoop net ls = (syncBody net ^^ n) ls \<and>
       \<not> loopCondition ((syncBody net ^^ n) ls) \<and>
       (\<forall>m<n. loopCondition ((syncBody net ^^ m) ls))"
proof (induction net ls rule: syncLoop.induct)
  case (1 net ls)
  show ?case
  proof (cases "loopCondition ls")
    case False
    then have "syncLoop net ls = (syncBody net ^^ 0) ls \<and>
       \<not> loopCondition ((syncBody net ^^ 0) ls) \<and>
       (\<forall>m<0. loopCondition ((syncBody net ^^ m) ls))"
      by (simp add: syncLoop.simps[of net ls])
    then show ?thesis by blast
  next
    case True
    from 1[OF True] obtain n where
      n: "syncLoop net (syncBody net ls) = (syncBody net ^^ n) (syncBody net ls)"
         "\<not> loopCondition ((syncBody net ^^ n) (syncBody net ls))"
         "\<forall>m<n. loopCondition ((syncBody net ^^ m) (syncBody net ls))"
      by blast
    have "syncLoop net ls = (syncBody net ^^ Suc n) ls"
      using True n(1) by (simp add: syncLoop.simps[of net ls] funpow_swap1)
    moreover have "\<not> loopCondition ((syncBody net ^^ Suc n) ls)"
      using n(2) by (simp add: funpow_swap1)
    moreover have "\<forall>m<Suc n. loopCondition ((syncBody net ^^ m) ls)"
    proof (intro allI impI)
      fix m assume "m < Suc n"
      then show "loopCondition ((syncBody net ^^ m) ls)"
        using True n(3) by (cases m) (simp_all add: funpow_swap1)
    qed
    ultimately show ?thesis by blast
  qed
qed

lemma getItem_removeItem:
  "getItem (removeItem k st) k' = (if k' = k then None else getItem st k')"
  by (induction st) auto

lemma getItem_setItem:
  "getItem (setItem k v st) k' = (if k' = k then Some v else getItem st k')"
  by (induction st) auto

lemma getItem_updateRequestRetry_None:
  "getItem (queueStore s) k = None \<Longrightarrow> getItem (queueStore (updateRequestRetry rid n s)) k = None"
  by (auto simp: updateRequestRetry_def getItem_setItem split: option.splits)

section \<open>Bounded drain\<close>

lemma countedSince_step:
  assumes inv: "countedSince base ls" and c: "loopCondition ls"
  shows "countedSince base (syncBody net ls)"
proof -
  from inv obtain new where new: "syncedIds (console (world ls)) = base @ new"
    "length new = processedCount ls" "\<forall>i\<in>set new. getItem (queueStore (world ls)) i = None"
    and le: "processedCount ls \<le> 50"
    by (auto simp: countedSince_def)
  show ?thesis
  proof (cases rule: syncBody_cases[of ls net])
    case Empty
    then show ?thesis using inv by simp
  next
    case (Skip r rest)
    then show ?thesis using inv by (simp add: countedSince_def)
  next
    case (Exhausted r rest)
    then show ?thesis using new le
      by (auto simp: countedSince_def removeRequest_def getItem_removeItem)
  next
    case (Gone r rest)
    then show ?thesis using inv by (simp add: countedSince_def)
  next
    case (Success r rest cur s1)
    have q: "queueStore s1 = queueStore (world ls)"
      and l: "syncedIds (console s1) = syncedIds (console (world ls))"
      using processRequest_fields(1,7)[OF Success(5)] by (simp_all add: logLine_def)
    have "syncedIds (console (world (syncBody net ls))) = base @ (new @ [req_id r])"
      using Success(6) l new(1) by (simp add: logLine_def removeRequest_def)
    moreover have "\<forall>i\<in>set (new @ [req_id r]).
        getItem (queueStore (world (syncBody net ls))) i = None"
      using Success(6) q new(3) by (simp add: logLine_def removeRequest_def getItem_removeItem)
    moreover have "length (new @ [req_id r]) = processedCount (syncBody net ls)"
      using Success(6) new(2) by simp
    moreover have "processedCount (syncBody net ls) \<le> 50"
      using Success(6) c by (simp add: loopCondition_def)
    ultimately show ?thesis unfolding countedSince_def by blast
  next
    case (Failure r rest cur e s1)
    have q: "queueStore s1 = queueStore (world ls)"
      and l: "syncedIds (console s1) = syncedIds (console (world ls))"
      using processRequest_fields(1,7)[OF Failure(5)] by (simp_all add: logLine_def)
    have "syncedIds (console (world (syncBody net ls))) = base @ new"
      using Failure(6) l new(1) by (simp add: logLine_def updateRequestRetry_def split: option.splits)
    moreover have "\<forall>i\<in>set new. getItem (queueStore (world (syncBody net ls))) i = None"
      using Failure(6) q new(3) by (simp add: logLine_def getItem_updateRequestRetry_None)
    moreover have "length new = processedCount (syncBody net ls)"
      using Failure(6) new(2) by simp
    moreover have "processedCount (syncBody net ls) \<le> 50"
      using Failure(6) le by simp
    ultimately show ?thesis unfolding countedSince_def by blast
  qed
qed

lemma syncLoop_counted:
  "countedSince (syncedIds (console s)) (syncLoop net (startLoop s))"
proof -
  have "countedSince (syncedIds (console s)) (startLoop s)"
    by (simp add: countedSince_def startLoop_def)
  then show ?thesis
    using syncLoop_invariant[of "countedSince (syncedIds (console s))" "startLoop s" net]
      countedSince_step by blast
qed

lemma syncLoop_exit: "\<not> loopCondition (syncLoop net ls)"
  using syncLoop_invariant[of "\<lambda>l. True" ls net] by simp

text \<open>
  C6. The loop of a drain leaves after finitely many passes \<open>n\<close> through its body, at the
  first state in which the list is empty or the counter is no longer below 50. The counter
  never exceeds 50 and equals the number of \<open>Synced\<close> lines the drain has written, one per
  request that was replayed with success and then removed: none of their ids is left in the
  queue. So a call of \<^verbatim>\<open>syncPendingRequests\<close> adds at most 50 such lines.
\<close>

theorem bounded_drain:
  "(\<exists>n. syncLoop net (startLoop s) = (syncBody net ^^ n) (startLoop s) \<and>
        \<not> loopCondition ((syncBody net ^^ n) (startLoop s)) \<and>
        (\<forall>m<n. loopCondition ((syncBody net ^^ m) (startLoop s)))) \<and>
   processedCount (syncLoop net (startLoop s)) \<le> 50 \<and>
   (requests (syncLoop net (startLoop s)) = [] \<or> processedCount (syncLoop net (startLoop s)) = 50) \<and>
   (\<exists>new. syncedIds (console (world (syncLoop net (startLoop s)))) = syncedIds (console s) @ new \<and>
          length new = processedCount (syncLoop net (startLoop s)) \<and>
          (\<forall>i\<in>set new. getItem (queueStore (world (syncLoop net (startLoop s)))) i = None)) \<and>
   length (syncedIds (console (snd (syncPendingRequests net s))))
     \<le> length (syncedIds (console s)) + 50"
proof -
  have c: "countedSince (syncedIds (console t)) (syncLoop net (startLoop t))" for t
    by (rule syncLoop_counted)
  have e: "\<not> loopCondition (syncLoop net (startLoop s))" by (rule syncLoop_exit)
  have le: "processedCount (syncLoop net (startLoop s)) \<le> 50"
    using c[of s] by (simp add: countedSince_def)
  have stop: "requests (syncLoop net (startLoop s)) = [] \<or>
              processedCount (syncLoop net (startLoop s)) = 50"
    using e le by (auto simp: loopCondition_def)
  have top: "length (syncedIds (console (snd (syncPendingRequests net s))))
               \<le> length (syncedIds (console s)) + 50"
  proof (cases "syncInProgress s \<or> \<not> storageAvailable s")
    case True
    then show ?thesis by (auto simp: syncPendingRequests_def Let_def)
  next
    case False
    from c[of "s\<lparr>syncInProgress := True\<rparr>"] obtain new where
      "syncedIds (console (world (syncLoop net (startLoop (s\<lparr>syncInProgress := True\<rparr>)))))
         = syncedIds (console s) @ new"
      "length new \<le> 50"
      by (auto simp: countedSince_def)
    then show ?thesis using False
      by (simp add: syncPendingRequests_def Let_def notifySyncComplete_def)
  qed
  show ?thesis
    using syncLoop_passes[of net "startLoop s"] le stop c[of s] top
    unfolding countedSince_def by blast
qed

theorem bounded_drain_witness:
  "syncLoop alwaysOk (startLoop (freshState\<lparr>queueStore := [(''a'', sampleRequest ''a'' 1 0)]\<rparr>))
     = (syncBody alwaysOk ^^ 1) (startLoop (freshState\<lparr>queueStore := [(''a'', sampleRequest ''a'' 1 0)]\<rparr>)) \<and>
   loopCondition (startLoop (freshState\<lparr>queueStore := [(''a'', sampleRequest ''a'' 1 0)]\<rparr>)) \<and>
   syncedIds (console (world (syncLoop alwaysOk
       (startLoop (freshState\<lparr>queueStore := [(''a'', sampleRequest ''a'' 1 0)]\<rparr>))))) = [''a''] \<and>
   getItem (queueStore (world (syncLoop alwaysOk
       (startLoop (freshState\<lparr>queueStore := [(''a'', sampleRequest ''a'' 1 0)]\<rparr>))))) ''a'' = None"
proof -
  let ?ls = "startLoop (freshState\<lparr>queueStore := [(''a'', sampleRequest ''a'' 1 0)]\<rparr>)"
  have one: "syncBody alwaysOk ?ls =
     \<lparr> requests = [], processedIds = {''a''}, processedCount = 1,
       world = freshState\<lparr>netLog := [requestCall ''/notifications/read''
                 \<lparr> opt_method = Some ''PUT'', opt_headers = [(''Authorization'', ''Bearer tok'')],
                   opt_body = None, opt_params = [], opt_skipJsonContentType = False,
                   opt_offlineable = None \<rparr>],
               console := [Processing (sampleRequest ''a'' 1 0), Synced ''a''] \<rparr> \<rparr>"
    by (simp add: syncBody_def startLoop_def getPendingRequests_def iterate_def freshState_def
        sampleRequest_def processRequest_def processApiRequest_def directRequest_def perform_def
        alwaysOk_def logLine_def removeRequest_def Let_def)
  have c0: "loopCondition ?ls"
    by (simp add: loopCondition_def startLoop_def getPendingRequests_def iterate_def freshState_def)
  have c1: "\<not> loopCondition (syncBody alwaysOk ?ls)"
    by (simp add: one loopCondition_def)
  have l: "syncLoop alwaysOk ?ls = syncBody alwaysOk ?ls"
    using c0 c1 by (simp add: syncLoop.simps[of alwaysOk ?ls] syncLoop.simps[of alwaysOk "syncBody alwaysOk ?ls"])
  have w1: "syncLoop alwaysOk ?ls = (syncBody alwaysOk ^^ 1) ?ls" by (simp add: l)
  have w3: "syncedIds (console (world (syncLoop alwaysOk ?ls))) = [''a'']"
    by (simp add: l one syncedIds_def)
  have w4: "getItem (queueStore (world (syncLoop alwaysOk ?ls))) ''a'' = None"
    unfolding l one by (simp add: freshState_def)
  show ?thesis
    using bounded_drain[of alwaysOk "freshState\<lparr>queueStore := [(''a'', sampleRequest ''a'' 1 0)]\<rparr>"]
      w1 c0 w3 w4
    by blast
qed

section \<open>FIFO replay\<close>

lemma storedStamps_removeItem: "storedStamps (removeItem k st) \<subseteq> storedStamps st"
  using set_removeItem_subset[of k st] by (auto simp: storedStamps_def)

lemma storedStamps_setItem_same:
  "getItem st k = Some v \<Longrightarrow> stamp v' = stamp v \<Longrightarrow> storedStamps (setItem k v' st) = storedStamps st"
  by (induction st) (auto simp: storedStamps_def split: if_splits)

lemma storedStamps_updateRequestRetry:
  "storedStamps (queueStore (updateRequestRetry rid n s)) = storedStamps (queueStore s)"
  by (auto simp: updateRequestRetry_def storedStamps_setItem_same stamp_def split: option.splits)

lemma storedStamps_pending: "stamp ` set (getPendingRequests s) = storedStamps (queueStore s)"
  by (simp add: set_getPendingRequests storedStamps_def)

lemma fifoInvI:
  assumes "sorted (map req_timestamp (requests ls))"
    and "attempted (console (world ls)) = base @ new"
    and "sorted (map req_timestamp new)"
    and "\<forall>a\<in>set new. \<forall>q\<in>set (requests ls).
                req_id q \<notin> processedIds ls \<longrightarrow> req_timestamp a \<le> req_timestamp q"
    and "\<forall>p\<in>storedStamps (queueStore (world ls)).
         fst p \<notin> processedIds ls \<longrightarrow> p \<in> stamp ` set (requests ls)"
  shows "fifoInv base ls"
  unfolding fifoInv_def using assms by blast

lemma fifoInv_refetch:
  assumes srt: "sorted (map req_timestamp (r # rest))"
    and old: "\<forall>a\<in>set new. \<forall>q\<in>set (r # rest). req_id q \<notin> P \<longrightarrow> req_timestamp a \<le> req_timestamp q"
    and listed: "\<forall>p\<in>storedStamps st. fst p \<notin> P \<longrightarrow> p \<in> stamp ` set (r # rest)"
    and sub: "storedStamps st' \<subseteq> storedStamps st"
    and q: "q \<in> snd ` set st'" "req_id q \<notin> insert (req_id r) P"
  shows "req_timestamp r \<le> req_timestamp q \<and> (\<forall>a\<in>set new. req_timestamp a \<le> req_timestamp q)"
proof -
  have "stamp q \<in> storedStamps st'" using q(1) unfolding storedStamps_def by blast
  then have "stamp q \<in> storedStamps st" using sub by blast
  moreover have "fst (stamp q) \<notin> P" using q(2) by (simp add: stamp_def)
  ultimately have "stamp q \<in> stamp ` set (r # rest)" using listed by blast
  then obtain q' where q': "q' \<in> set (r # rest)" "stamp q' = stamp q" by force
  then have eq: "req_id q' = req_id q" "req_timestamp q' = req_timestamp q"
    by (simp_all add: stamp_def)
  have nP: "req_id q' \<notin> P" using eq(1) q(2) by simp
  have "req_timestamp r \<le> req_timestamp q'"
    using srt q'(1) by auto
  moreover have "\<forall>a\<in>set new. req_timestamp a \<le> req_timestamp q'"
    using old q'(1) nP by blast
  ultimately show ?thesis by (simp add: eq(2))
qed

lemma fifoInv_rest:
  assumes listed: "\<forall>p\<in>storedStamps st. fst p \<notin> P \<longrightarrow> p \<in> stamp ` set (r # rest)"
    and same: "storedStamps st' = storedStamps st"
  shows "\<forall>p\<in>storedStamps st'. fst p \<notin> insert (req_id r) P \<longrightarrow> p \<in> stamp ` set rest"
proof (intro ballI impI)
  fix p assume p: "p \<in> storedStamps st'" "fst p \<notin> insert (req_id r) P"
  then have "p \<in> stamp ` set (r # rest)" using listed same by blast
  moreover have "p \<noteq> stamp r" using p(2) by (auto simp: stamp_def)
  ultimately show "p \<in> stamp ` set rest" by auto
qed

lemma fifoInvI2:
  assumes "requests l = rq" and "processedIds l = P"
    and "attempted (console (world l)) = base @ new"
    and "storedStamps (queueStore (world l)) = S"
    and "sorted (map req_timestamp rq)"
    and "sorted (map req_timestamp new)"
    and "\<forall>a\<in>set new. \<forall>q\<in>set rq. req_id q \<notin> P \<longrightarrow> req_timestamp a \<le> req_timestamp q"
    and "\<forall>p\<in>S. fst p \<notin> P \<longrightarrow> p \<in> stamp ` set rq"
  shows "fifoInv base l"
  unfolding fifoInv_def using assms by blast

lemma fifoInv_step:
  assumes inv: "fifoInv base ls"
  shows "fifoInv base (syncBody net ls)"
proof -
  from inv obtain new where
    srt: "sorted (map req_timestamp (requests ls))"
    and log: "attempted (console (world ls)) = base @ new"
    and sn: "sorted (map req_timestamp new)"
    and old: "\<forall>a\<in>set new. \<forall>q\<in>set (requests ls).
                req_id q \<notin> processedIds ls \<longrightarrow> req_timestamp a \<le> req_timestamp q"
    and listed: "\<forall>p\<in>storedStamps (queueStore (world ls)).
         fst p \<notin> processedIds ls \<longrightarrow> p \<in> stamp ` set (requests ls)"
    unfolding fifoInv_def by blast
  show ?thesis
  proof (cases rule: syncBody_cases[of ls net])
    case Empty
    then show ?thesis using inv by simp
  next
    case (Skip r rest)
    note rq = Skip(1)
    have f1: "requests (syncBody net ls) = rest"
      and f2: "processedIds (syncBody net ls) = processedIds ls"
      and f3: "attempted (console (world (syncBody net ls))) = base @ new"
      and f4: "storedStamps (queueStore (world (syncBody net ls)))
                 = storedStamps (queueStore (world ls))"
      using log by (simp_all add: Skip(3))
    have ins: "insert (req_id r) (processedIds ls) = processedIds ls"
      using Skip(2) by blast
    have e: "\<forall>p\<in>storedStamps (queueStore (world ls)).
            fst p \<notin> processedIds ls \<longrightarrow> p \<in> stamp ` set rest"
      using fifoInv_rest[OF listed[unfolded rq] refl] ins by simp
    have s: "sorted (map req_timestamp rest)" using srt rq by simp
    have c: "\<forall>a\<in>set new. \<forall>q\<in>set rest.
                req_id q \<notin> processedIds ls \<longrightarrow> req_timestamp a \<le> req_timestamp q"
      using old rq by simp
    show ?thesis by (rule fifoInvI2[OF f1 f2 f3 f4 s sn c e])
  next
    case (Exhausted r rest)
    note rq = Exhausted(1)
    define w where "w = removeRequest (req_id r) (world ls)"
    have sub: "storedStamps (queueStore w) \<subseteq> storedStamps (queueStore (world ls))"
      unfolding w_def removeRequest_def using storedStamps_removeItem by simp
    have f1: "requests (syncBody net ls) = getPendingRequests w"
      and f2: "processedIds (syncBody net ls) = insert (req_id r) (processedIds ls)"
      and f3: "attempted (console (world (syncBody net ls))) = base @ new"
      and f4: "storedStamps (queueStore (world (syncBody net ls))) = storedStamps (queueStore w)"
      using log by (simp_all add: Exhausted(4) w_def removeRequest_def)
    have c: "\<forall>a\<in>set new. \<forall>q\<in>set (getPendingRequests w).
               req_id q \<notin> insert (req_id r) (processedIds ls) \<longrightarrow> req_timestamp a \<le> req_timestamp q"
    proof (intro ballI impI)
      fix a q
      assume a: "a \<in> set new" and q: "q \<in> set (getPendingRequests w)"
        and n: "req_id q \<notin> insert (req_id r) (processedIds ls)"
      have "q \<in> snd ` set (queueStore w)" using q by (simp add: set_getPendingRequests)
      from fifoInv_refetch[OF srt[unfolded rq] old[unfolded rq] listed[unfolded rq] sub this n]
      show "req_timestamp a \<le> req_timestamp q" using a by blast
    qed
    have e: "\<forall>p\<in>storedStamps (queueStore w). fst p \<notin> insert (req_id r) (processedIds ls) \<longrightarrow>
               p \<in> stamp ` set (getPendingRequests w)"
      by (simp add: storedStamps_pending)
    show ?thesis
      by (rule fifoInvI2[OF f1 f2 f3 f4 getPendingRequests_sorted sn c e])
  next
    case (Gone r rest)
    note rq = Gone(1)
    have f1: "requests (syncBody net ls) = rest"
      and f2: "processedIds (syncBody net ls) = insert (req_id r) (processedIds ls)"
      and f3: "attempted (console (world (syncBody net ls))) = base @ new"
      and f4: "storedStamps (queueStore (world (syncBody net ls)))
                 = storedStamps (queueStore (world ls))"
      using log by (simp_all add: Gone(5))
    have e: "\<forall>p\<in>storedStamps (queueStore (world ls)).
            fst p \<notin> insert (req_id r) (processedIds ls) \<longrightarrow> p \<in> stamp ` set rest"
      by (rule fifoInv_rest[OF listed[unfolded rq] refl])
    have s: "sorted (map req_timestamp rest)" using srt rq by simp
    have c: "\<forall>a\<in>set new. \<forall>q\<in>set rest.
                req_id q \<notin> insert (req_id r) (processedIds ls) \<longrightarrow> req_timestamp a \<le> req_timestamp q"
      using old rq by simp
    show ?thesis by (rule fifoInvI2[OF f1 f2 f3 f4 s sn c e])
  next
    case (Success r rest cur s1)
    note rq = Success(1)
    define w where "w = logLine (Synced (req_id r)) (removeRequest (req_id r) s1)"
    have q: "queueStore s1 = queueStore (world ls)"
      and l: "attempted (console s1) = base @ (new @ [r])"
      using processRequest_fields(1,6)[OF Success(5)] log by (simp_all add: logLine_def)
    have sub: "storedStamps (queueStore w) \<subseteq> storedStamps (queueStore (world ls))"
      unfolding w_def removeRequest_def logLine_def using storedStamps_removeItem q by simp
    have f1: "requests (syncBody net ls) = getPendingRequests w"
      and f2: "processedIds (syncBody net ls) = insert (req_id r) (processedIds ls)"
      and f4: "storedStamps (queueStore (world (syncBody net ls))) = storedStamps (queueStore w)"
      by (simp_all add: Success(6) w_def)
    have f3: "attempted (console (world (syncBody net ls))) = base @ (new @ [r])"
      using l by (simp add: Success(6) logLine_def removeRequest_def)
    have head: "\<forall>a\<in>set new. req_timestamp a \<le> req_timestamp r"
      using old rq Success(2) by simp
    have sn': "sorted (map req_timestamp (new @ [r]))"
      using sn head by (simp add: sorted_append)
    have c: "\<forall>a\<in>set (new @ [r]). \<forall>q\<in>set (getPendingRequests w).
               req_id q \<notin> insert (req_id r) (processedIds ls) \<longrightarrow> req_timestamp a \<le> req_timestamp q"
    proof (intro ballI impI)
      fix a q
      assume a: "a \<in> set (new @ [r])" and q: "q \<in> set (getPendingRequests w)"
        and n: "req_id q \<notin> insert (req_id r) (processedIds ls)"
      have "q \<in> snd ` set (queueStore w)" using q by (simp add: set_getPendingRequests)
      from fifoInv_refetch[OF srt[unfolded rq] old[unfolded rq] listed[unfolded rq] sub this n]
      show "req_timestamp a \<le> req_timestamp q" using a by auto
    qed
    have e: "\<forall>p\<in>storedStamps (queueStore w). fst p \<notin> insert (req_id r) (processedIds ls) \<longrightarrow>
               p \<in> stamp ` set (getPendingRequests w)"
      by (simp add: storedStamps_pending)
    show ?thesis
      by (rule fifoInvI2[OF f1 f2 f3 f4 getPendingRequests_sorted sn' c e])
  next
    case (Failure r rest cur e s1)
    note rq = Failure(1)
    define w where "w = logLine (Failed (req_id r) (req_retries r + 1))
                          (updateRequestRetry (req_id r) (req_retries r + 1) s1)"
    have q: "queueStore s1 = queueStore (world ls)"
      and l: "attempted (console s1) = base @ (new @ [r])"
      using processRequest_fields(1,6)[OF Failure(5)] log by (simp_all add: logLine_def)
    have same: "storedStamps (queueStore w) = storedStamps (queueStore (world ls))"
      using storedStamps_updateRequestRetry[of "req_id r" "req_retries r + 1" s1] q
      by (simp add: w_def logLine_def)
    have f1: "requests (syncBody net ls) = rest"
      and f2: "processedIds (syncBody net ls) = insert (req_id r) (processedIds ls)"
      and f4: "storedStamps (queueStore (world (syncBody net ls))) = storedStamps (queueStore w)"
      by (simp_all add: Failure(6) w_def)
    have f3: "attempted (console (world (syncBody net ls))) = base @ (new @ [r])"
      using l by (simp add: Failure(6) logLine_def updateRequestRetry_def split: option.splits)
    have head: "\<forall>a\<in>set new. req_timestamp a \<le> req_timestamp r"
      using old rq Failure(2) by simp
    have sn': "sorted (map req_timestamp (new @ [r]))"
      using sn head by (simp add: sorted_append)
    have c: "\<forall>a\<in>set (new @ [r]). \<forall>q\<in>set rest.
               req_id q \<notin> insert (req_id r) (processedIds ls) \<longrightarrow> req_timestamp a \<le> req_timestamp q"
    proof (intro ballI impI)
      fix a q
      assume a: "a \<in> set (new @ [r])" and q: "q \<in> set rest"
        and n: "req_id q \<notin> insert (req_id r) (processedIds ls)"
      have "req_timestamp r \<le> req_timestamp q" using srt rq q by simp
      moreover have "a \<in> set new \<Longrightarrow> req_timestamp a \<le> req_timestamp q"
        using old rq q n by simp
      ultimately show "req_timestamp a \<le> req_timestamp q" using a by auto
    qed
    have e: "\<forall>p\<in>storedStamps (queueStore w).
            fst p \<notin> insert (req_id r) (processedIds ls) \<longrightarrow> p \<in> stamp ` set rest"
      by (rule fifoInv_rest[OF listed[unfolded rq] same])
    have srt': "sorted (map req_timestamp rest)" using srt rq by simp
    show ?thesis by (rule fifoInvI2[OF f1 f2 f3 f4 srt' sn' c e])
  qed
qed

lemma fifoInv_start: "fifoInv (attempted (console s)) (startLoop s)"
  by (simp add: fifoInv_def startLoop_def getPendingRequests_sorted storedStamps_pending)

lemma syncLoop_fifo: "fifoInv (attempted (console s)) (syncLoop net (startLoop s))"
  using syncLoop_invariant[of "fifoInv (attempted (console s))" "startLoop s" net]
    fifoInv_start fifoInv_step by blast

lemmas drain_eval =
  syncPendingRequests_def startLoop_def syncLoop.simps loopCondition_def syncBody_def
  getPendingRequests_def iterate_def processRequest_def processApiRequest_def directRequest_def
  perform_def logLine_def removeRequest_def updateRequestRetry_def notifySyncComplete_def Let_def

section \<open>A well-formed queue\<close>

lemma getItem_None_iff: "getItem st k = None \<longleftrightarrow> k \<notin> fst ` set st"
  by (induction st) auto

lemma getItem_Some_iff:
  "distinct (map fst st) \<Longrightarrow> getItem st k = Some v \<longleftrightarrow> (k, v) \<in> set st"
  by (induction st) (auto simp: rev_image_eqI)

lemma wfQueue_id: "wfQueue st \<Longrightarrow> getItem st k = Some r \<Longrightarrow> req_id r = k"
  using getItem_Some_mem[of st k r] by (auto simp: wfQueue_def)

lemma set_removeItem: "set (removeItem k st) = {p \<in> set st. fst p \<noteq> k}"
  by (induction st) auto

lemma distinct_removeItem: "distinct (map fst st) \<Longrightarrow> distinct (map fst (removeItem k st))"
  by (induction st) (auto simp: set_removeItem)

lemma wfQueue_removeItem: "wfQueue st \<Longrightarrow> wfQueue (removeItem k st)"
  by (auto simp: wfQueue_def distinct_removeItem set_removeItem)

lemma fst_set_setItem: "fst ` set (setItem k v st) = insert k (fst ` set st)"
  by (induction st) auto

lemma distinct_setItem: "distinct (map fst st) \<Longrightarrow> distinct (map fst (setItem k v st))"
  by (induction st) (auto simp: fst_set_setItem)

lemma set_setItem_subset: "set (setItem k v st) \<subseteq> insert (k, v) (set st)"
  by (induction st) auto

lemma wfQueue_setItem: "wfQueue st \<Longrightarrow> req_id v = k \<Longrightarrow> wfQueue (setItem k v st)"
  using set_setItem_subset[of k v st] by (auto simp: wfQueue_def distinct_setItem)

lemma length_removeItem_le: "length (removeItem k st) \<le> length st"
  by (induction st) auto

lemma length_removeItem_less: "getItem st k = Some v \<Longrightarrow> length (removeItem k st) < length st"
  using length_removeItem_le[of k] by (induction st) (auto simp: less_Suc_eq_le split: if_splits)

lemma length_setItem_same: "getItem st k = Some v \<Longrightarrow> length (setItem k v' st) = length st"
  by (induction st) (auto split: if_splits)

lemma pending_iff:
  "wfQueue (queueStore s) \<Longrightarrow>
   q \<in> set (getPendingRequests s) \<longleftrightarrow> getItem (queueStore s) (req_id q) = Some q"
  by (force simp: set_getPendingRequests wfQueue_def getItem_Some_iff)

lemma wfQueue_queueRequest:
  "wfQueue (queueStore s) \<Longrightarrow> wfQueue (queueStore (snd (queueRequest env d s)))"
  by (simp add: queueRequest_def Let_def wfQueue_setItem)

section \<open>The queue during a drain\<close>

lemma queueInvI:
  assumes "requests l = rq" and "processedIds l = P" and "queueStore (world l) = st"
    and "processedCount l = c"
    and "wfQueue st"
    and "\<forall>q\<in>set rq. req_id q \<notin> P \<longrightarrow> getItem st (req_id q) = Some q"
    and "\<forall>k r. getItem st k = Some r \<longrightarrow> k \<notin> P \<longrightarrow> r \<in> set rq"
    and "\<forall>k. k \<notin> P \<longrightarrow> getItem st k = getItem st0 k"
    and "c + length st \<le> length st0"
  shows "queueInv st0 l"
  unfolding queueInv_def using assms by blast

lemma queueInv_start: "wfQueue (queueStore s) \<Longrightarrow> queueInv (queueStore s) (startLoop s)"
  unfolding queueInv_def startLoop_def
  by (simp add: pending_iff) (metis wfQueue_id)

lemma queueInv_head:
  assumes "queueInv st0 ls" "requests ls = r # rest" "req_id r \<notin> processedIds ls"
  shows "getItem (queueStore (world ls)) (req_id r) = Some r" "getItem st0 (req_id r) = Some r"
  using assms unfolding queueInv_def by auto

lemma queueInv_step:
  assumes inv: "queueInv st0 ls"
  shows "queueInv st0 (syncBody net ls)"
proof -
  let ?st = "queueStore (world ls)"
  from inv have wf: "wfQueue ?st"
    and L: "\<forall>q\<in>set (requests ls). req_id q \<notin> processedIds ls \<longrightarrow> getItem ?st (req_id q) = Some q"
    and S: "\<forall>k r. getItem ?st k = Some r \<longrightarrow> k \<notin> processedIds ls \<longrightarrow> r \<in> set (requests ls)"
    and U: "\<forall>k. k \<notin> processedIds ls \<longrightarrow> getItem ?st k = getItem st0 k"
    and N: "processedCount ls + length ?st \<le> length st0"
    unfolding queueInv_def by blast+
  have refetch: "queueInv st0 l"
    if f: "requests l = getPendingRequests w" "processedIds l = insert (req_id r) (processedIds ls)"
      "queueStore (world l) = removeItem (req_id r) ?st" "processedCount l = c"
      and w: "queueStore w = removeItem (req_id r) ?st"
      and c: "c + length (removeItem (req_id r) ?st) \<le> length st0"
    for l w c and r :: OfflineRequest
  proof (rule queueInvI[OF f(1) f(2) f(3) f(4) _ _ _ _ c])
    show wf': "wfQueue (removeItem (req_id r) ?st)" using wf by (rule wfQueue_removeItem)
    show "\<forall>q\<in>set (getPendingRequests w). req_id q \<notin> insert (req_id r) (processedIds ls) \<longrightarrow>
            getItem (removeItem (req_id r) ?st) (req_id q) = Some q"
      using pending_iff[of w] wf' w by simp
    show "\<forall>k v. getItem (removeItem (req_id r) ?st) k = Some v \<longrightarrow>
            k \<notin> insert (req_id r) (processedIds ls) \<longrightarrow> v \<in> set (getPendingRequests w)"
      using pending_iff[of w] wf' w wfQueue_id[OF wf'] by metis
    show "\<forall>k. k \<notin> insert (req_id r) (processedIds ls) \<longrightarrow>
            getItem (removeItem (req_id r) ?st) k = getItem st0 k"
      using U by (simp add: getItem_removeItem)
  qed
  show ?thesis
  proof (cases rule: syncBody_cases[of ls net])
    case Empty
    then show ?thesis using inv by simp
  next
    case (Skip r rest)
    have f: "requests (syncBody net ls) = rest" "processedIds (syncBody net ls) = processedIds ls"
      "queueStore (world (syncBody net ls)) = ?st" "processedCount (syncBody net ls) = processedCount ls"
      by (simp_all add: Skip(3))
    have L': "\<forall>q\<in>set rest. req_id q \<notin> processedIds ls \<longrightarrow> getItem ?st (req_id q) = Some q"
      using L Skip(1) by simp
    have S': "\<forall>k v. getItem ?st k = Some v \<longrightarrow> k \<notin> processedIds ls \<longrightarrow> v \<in> set rest"
    proof (intro allI impI)
      fix k v assume a: "getItem ?st k = Some v" "k \<notin> processedIds ls"
      then have "v \<in> set (r # rest)" using S Skip(1) by auto
      moreover have "v \<noteq> r" using wfQueue_id[OF wf a(1)] a(2) Skip(2) by auto
      ultimately show "v \<in> set rest" by simp
    qed
    show ?thesis by (rule queueInvI[OF f wf L' S' U N])
  next
    case (Exhausted r rest)
    have f: "requests (syncBody net ls) = getPendingRequests (removeRequest (req_id r) (world ls))"
      "processedIds (syncBody net ls) = insert (req_id r) (processedIds ls)"
      "queueStore (world (syncBody net ls)) = removeItem (req_id r) ?st"
      "processedCount (syncBody net ls) = processedCount ls"
      by (simp_all add: Exhausted(4) removeRequest_def)
    have c: "processedCount ls + length (removeItem (req_id r) ?st) \<le> length st0"
      using N length_removeItem_le[of "req_id r" ?st] by simp
    show ?thesis
      by (rule refetch[OF f _ c]) (simp add: removeRequest_def)
  next
    case (Gone r rest)
    have "getItem ?st (req_id r) = Some r"
      using queueInv_head(1)[OF inv Gone(1,2)] .
    then show ?thesis using Gone(4) by simp
  next
    case (Success r rest cur s1)
    define w where "w = logLine (Synced (req_id r)) (removeRequest (req_id r) s1)"
    have q: "queueStore s1 = ?st"
      using processRequest_fields(1)[OF Success(5)] by simp
    have f: "requests (syncBody net ls) = getPendingRequests w"
      "processedIds (syncBody net ls) = insert (req_id r) (processedIds ls)"
      "queueStore (world (syncBody net ls)) = removeItem (req_id r) ?st"
      "processedCount (syncBody net ls) = processedCount ls + 1"
      using q by (simp_all add: Success(6) w_def removeRequest_def)
    have c: "processedCount ls + 1 + length (removeItem (req_id r) ?st) \<le> length st0"
      using N length_removeItem_less[OF Success(4)] by simp
    show ?thesis
      by (rule refetch[OF f _ c]) (simp add: w_def removeRequest_def q)
  next
    case (Failure r rest cur e s1)
    define st' where "st' = setItem (req_id r) (cur\<lparr>req_retries := req_retries r + 1\<rparr>) ?st"
    have q: "queueStore s1 = ?st"
      using processRequest_fields(1)[OF Failure(5)] by simp
    have cur: "cur = r" using queueInv_head(1)[OF inv Failure(1,2)] Failure(4) by simp
    have f: "requests (syncBody net ls) = rest"
      "processedIds (syncBody net ls) = insert (req_id r) (processedIds ls)"
      "queueStore (world (syncBody net ls)) = st'"
      "processedCount (syncBody net ls) = processedCount ls"
      using q Failure(4) by (simp_all add: Failure(6) st'_def updateRequestRetry_def)
    have wf': "wfQueue st'"
      unfolding st'_def using wf by (rule wfQueue_setItem) (simp add: cur)
    have get: "getItem st' k = (if k = req_id r then Some (cur\<lparr>req_retries := req_retries r + 1\<rparr>)
                                else getItem ?st k)" for k
      by (simp add: st'_def getItem_setItem)
    have L': "\<forall>q\<in>set rest. req_id q \<notin> insert (req_id r) (processedIds ls) \<longrightarrow>
                getItem st' (req_id q) = Some q"
      using L Failure(1) by (simp add: get)
    have S': "\<forall>k v. getItem st' k = Some v \<longrightarrow> k \<notin> insert (req_id r) (processedIds ls) \<longrightarrow>
                v \<in> set rest"
    proof (intro allI impI)
      fix k v assume a: "getItem st' k = Some v" "k \<notin> insert (req_id r) (processedIds ls)"
      then have g: "getItem ?st k = Some v" by (simp add: get)
      then have "v \<in> set (r # rest)" using S Failure(1) a(2) by auto
      moreover have "v \<noteq> r" using wfQueue_id[OF wf g] a(2) by auto
      ultimately show "v \<in> set rest" by simp
    qed
    have U': "\<forall>k. k \<notin> insert (req_id r) (processedIds ls) \<longrightarrow> getItem st' k = getItem st0 k"
      using U by (simp add: get)
    have N': "processedCount ls + length st' \<le> length st0"
      using N length_setItem_same[OF Failure(4)] by (simp add: st'_def)
    show ?thesis by (rule queueInvI[OF f wf' L' S' U' N'])
  qed
qed

section \<open>What a drain does to each queued request\<close>

lemma settled_mono:
  "settled net new st k r \<Longrightarrow> set new \<subseteq> set new' \<Longrightarrow> getItem st' k = getItem st k \<Longrightarrow>
   settled net new' st' k r"
  unfolding settled_def by (auto split: if_splits)

lemma replayInvI:
  assumes "processedIds l = P" and "queueStore (world l) = st"
    and "attempted (console (world l)) = base @ new"
    and "distinct (map req_id new)"
    and "\<forall>a\<in>set new. req_id a \<in> P \<and> req_retries a < 3 \<and> getItem st0 (req_id a) = Some a"
    and "\<forall>k\<in>P. \<forall>r. getItem st0 k = Some r \<longrightarrow> settled net new st k r"
  shows "replayInv net st0 base l"
  unfolding replayInv_def using assms by blast

lemma replayInv_start: "replayInv net st0 (attempted (console s)) (startLoop s)"
  unfolding replayInv_def startLoop_def by simp

lemma replayInv_step:
  assumes q: "queueInv st0 ls" and inv: "replayInv net st0 base ls"
  shows "replayInv net st0 base (syncBody net ls)"
proof -
  let ?st = "queueStore (world ls)"
  let ?P = "processedIds ls"
  from inv obtain new where
    log: "attempted (console (world ls)) = base @ new"
    and dist: "distinct (map req_id new)"
    and A: "\<forall>a\<in>set new. req_id a \<in> ?P \<and> req_retries a < 3 \<and> getItem st0 (req_id a) = Some a"
    and Pr: "\<forall>k\<in>?P. \<forall>r. getItem st0 k = Some r \<longrightarrow> settled net new ?st k r"
    unfolding replayInv_def by blast
  have grow: "\<forall>a\<in>set new'. req_id a \<in> insert (req_id r) ?P \<and> req_retries a < 3 \<and>
                 getItem st0 (req_id a) = Some a"
    if "set new' \<subseteq> insert r (set new)" "req_retries r < 3" "getItem st0 (req_id r) = Some r"
    for new' and r :: OfflineRequest
    using that A by auto
  have keep: "\<forall>a\<in>set new. req_id a \<in> insert k ?P \<and> req_retries a < 3 \<and>
                 getItem st0 (req_id a) = Some a" for k
    using A by auto
  have others: "\<forall>k\<in>insert (req_id r) ?P. \<forall>r0. getItem st0 k = Some r0 \<longrightarrow> settled net new' st' k r0"
    if head: "getItem st0 (req_id r) = Some r" "settled net new' st' (req_id r) r"
      and sub: "set new \<subseteq> set new'"
      and same: "\<forall>k. k \<noteq> req_id r \<longrightarrow> getItem st' k = getItem ?st k"
    for new' st' and r :: OfflineRequest
  proof (intro ballI allI impI)
    fix k r0 assume k: "k \<in> insert (req_id r) ?P" and r0: "getItem st0 k = Some r0"
    show "settled net new' st' k r0"
    proof (cases "k = req_id r")
      case True
      then show ?thesis using head r0 by simp
    next
      case False
      then have "settled net new ?st k r0" using k r0 Pr by blast
      then show ?thesis using sub same False by (auto intro: settled_mono)
    qed
  qed
  show ?thesis
  proof (cases rule: syncBody_cases[of ls net])
    case Empty
    then show ?thesis using inv by simp
  next
    case (Skip r rest)
    have f: "processedIds (syncBody net ls) = ?P" "queueStore (world (syncBody net ls)) = ?st"
      "attempted (console (world (syncBody net ls))) = base @ new"
      using log by (simp_all add: Skip(3))
    show ?thesis by (rule replayInvI[OF f dist A Pr])
  next
    case (Exhausted r rest)
    have f: "processedIds (syncBody net ls) = insert (req_id r) ?P"
      "queueStore (world (syncBody net ls)) = removeItem (req_id r) ?st"
      "attempted (console (world (syncBody net ls))) = base @ new"
      using log by (simp_all add: Exhausted(4) removeRequest_def)
    have h0: "getItem st0 (req_id r) = Some r"
      by (rule queueInv_head(2)[OF q Exhausted(1,2)])
    have h: "settled net new (removeItem (req_id r) ?st) (req_id r) r"
      using Exhausted(3) by (simp add: settled_def getItem_removeItem)
    have o: "\<forall>k\<in>insert (req_id r) ?P. \<forall>r0. getItem st0 k = Some r0 \<longrightarrow>
               settled net new (removeItem (req_id r) ?st) k r0"
      by (rule others[OF h0 h]) (auto simp: getItem_removeItem)
    show ?thesis by (rule replayInvI[OF f dist keep o])
  next
    case (Gone r rest)
    have "getItem ?st (req_id r) = Some r"
      by (rule queueInv_head(1)[OF q Gone(1,2)])
    then show ?thesis using Gone(4) by simp
  next
    case (Success r rest cur s1)
    have qs: "queueStore s1 = ?st"
      and l: "attempted (console s1) = base @ (new @ [r])"
      using processRequest_fields(1,6)[OF Success(5)] log by (simp_all add: logLine_def)
    have f: "processedIds (syncBody net ls) = insert (req_id r) ?P"
      "queueStore (world (syncBody net ls)) = removeItem (req_id r) ?st"
      "attempted (console (world (syncBody net ls))) = base @ (new @ [r])"
      using qs l by (simp_all add: Success(6) removeRequest_def logLine_def)
    have h0: "getItem st0 (req_id r) = Some r"
      by (rule queueInv_head(2)[OF q Success(1,2)])
    have d: "distinct (map req_id (new @ [r]))"
      using dist A Success(2) by auto
    have ok: "\<exists>s. fst (processRequest net r s) = Inr ()"
      using Success(5) by (metis fst_conv)
    have h: "settled net (new @ [r]) (removeItem (req_id r) ?st) (req_id r) r"
      using Success(3) ok by (simp add: settled_def getItem_removeItem)
    have o: "\<forall>k\<in>insert (req_id r) ?P. \<forall>r0. getItem st0 k = Some r0 \<longrightarrow>
               settled net (new @ [r]) (removeItem (req_id r) ?st) k r0"
      by (rule others[OF h0 h]) (auto simp: getItem_removeItem)
    have a: "\<forall>a\<in>set (new @ [r]). req_id a \<in> insert (req_id r) ?P \<and> req_retries a < 3 \<and>
                 getItem st0 (req_id a) = Some a"
      by (rule grow[OF _ Success(3) h0]) simp
    show ?thesis by (rule replayInvI[OF f d a o])
  next
    case (Failure r rest cur e s1)
    define st' where "st' = setItem (req_id r) (r\<lparr>req_retries := req_retries r + 1\<rparr>) ?st"
    have qs: "queueStore s1 = ?st"
      and l: "attempted (console s1) = base @ (new @ [r])"
      using processRequest_fields(1,6)[OF Failure(5)] log by (simp_all add: logLine_def)
    have cur: "cur = r" using queueInv_head(1)[OF q Failure(1,2)] Failure(4) by simp
    have f: "processedIds (syncBody net ls) = insert (req_id r) ?P"
      "queueStore (world (syncBody net ls)) = st'"
      "attempted (console (world (syncBody net ls))) = base @ (new @ [r])"
      using qs l Failure(4) cur
      by (simp_all add: Failure(6) st'_def updateRequestRetry_def logLine_def)
    have h0: "getItem st0 (req_id r) = Some r"
      by (rule queueInv_head(2)[OF q Failure(1,2)])
    have d: "distinct (map req_id (new @ [r]))"
      using dist A Failure(2) by auto
    have h: "settled net (new @ [r]) st' (req_id r) r"
      using Failure(3) by (simp add: settled_def st'_def getItem_setItem)
    have o: "\<forall>k\<in>insert (req_id r) ?P. \<forall>r0. getItem st0 k = Some r0 \<longrightarrow>
               settled net (new @ [r]) st' k r0"
      by (rule others[OF h0 h]) (auto simp: st'_def getItem_setItem)
    have a: "\<forall>a\<in>set (new @ [r]). req_id a \<in> insert (req_id r) ?P \<and> req_retries a < 3 \<and>
                 getItem st0 (req_id a) = Some a"
      by (rule grow[OF _ Failure(3) h0]) simp
    show ?thesis by (rule replayInvI[OF f d a o])
  qed
qed

lemma syncBody_storageAvailable:
  "storageAvailable (world (syncBody net ls)) = storageAvailable (world ls)"
proof (cases rule: syncBody_cases[of ls net])
  case (Success r rest cur s1)
  then show ?thesis
    using processRequest_fields(3)[OF Success(5)]
    by (simp add: removeRequest_def logLine_def)
next
  case (Failure r rest cur e s1)
  then show ?thesis
    using processRequest_fields(3)[OF Failure(5)]
    by (simp add: updateRequestRetry_def logLine_def split: option.splits)
qed (simp_all add: removeRequest_def)

lemma syncLoop_storageAvailable:
  "storageAvailable (world (syncLoop net ls)) = storageAvailable (world ls)"
  using syncLoop_invariant[of "\<lambda>l. storageAvailable (world l) = storageAvailable (world ls)" ls net]
  by (simp add: syncBody_storageAvailable)

text \<open>The state a drain that runs returns, in terms of the loop it ran.\<close>

lemma syncPendingRequests_runs:
  assumes "\<not> syncInProgress s" "storageAvailable s"
  shows "snd (syncPendingRequests net s)
         = (notifySyncComplete (world (syncLoop net (startLoop (s\<lparr>syncInProgress := True\<rparr>)))))
             \<lparr>syncInProgress := False\<rparr>"
  using assms by (simp add: syncPendingRequests_def Let_def)

lemma drain_invariants:
  fixes net :: Net
  assumes wf: "wfQueue (queueStore s)"
  defines "final \<equiv> syncLoop net (startLoop (s\<lparr>syncInProgress := True\<rparr>))"
  shows "queueInv (queueStore s) final"
    and "replayInv net (queueStore s) (attempted (console s)) final"
    and "countedSince (syncedIds (console s)) final"
    and "\<not> loopCondition final"
proof -
  let ?s1 = "s\<lparr>syncInProgress := True\<rparr>"
  let ?I = "\<lambda>l. queueInv (queueStore s) l \<and> replayInv net (queueStore s) (attempted (console s)) l"
  have "?I (startLoop ?s1)"
    using queueInv_start[of ?s1] replayInv_start[of net "queueStore s" ?s1] wf by simp
  then have "?I final \<and> \<not> loopCondition final"
    unfolding final_def
    by (rule syncLoop_invariant) (simp add: queueInv_step replayInv_step)
  then show "queueInv (queueStore s) final"
    and "replayInv net (queueStore s) (attempted (console s)) final"
    and "\<not> loopCondition final" by simp_all
  show "countedSince (syncedIds (console s)) final"
    using syncLoop_counted[of ?s1 net] by (simp add: final_def)
qed

lemma drain_outcome:
  fixes net :: Net
  assumes wf: "wfQueue (queueStore s)" and idle: "\<not> syncInProgress s"
    and up: "storageAvailable s"
  defines "s' \<equiv> snd (syncPendingRequests net s)"
  shows "wfQueue (queueStore s') \<and> length (queueStore s') \<le> length (queueStore s) \<and>
         \<not> syncInProgress s' \<and> storageAvailable s' \<and>
         (\<exists>new. attempted (console s') = attempted (console s) @ new \<and>
            distinct (map req_id new) \<and>
            (\<forall>a\<in>set new. req_retries a < 3 \<and> getItem (queueStore s) (req_id a) = Some a) \<and>
            (\<forall>k r. getItem (queueStore s) k = Some r \<longrightarrow>
               (getItem (queueStore s') k = Some r \<and> (\<forall>a\<in>set new. req_id a \<noteq> k)) \<or>
               settled net new (queueStore s') k r) \<and>
            (length (syncedIds (console s')) < length (syncedIds (console s)) + 50 \<or>
             length (queueStore s) \<le> 50 \<longrightarrow>
               (\<forall>k r. getItem (queueStore s) k = Some r \<longrightarrow>
                  settled net new (queueStore s') k r)))"
proof -
  define final where "final = syncLoop net (startLoop (s\<lparr>syncInProgress := True\<rparr>))"
  let ?st = "queueStore (world final)"
  let ?P = "processedIds final"
  note inv = drain_invariants[OF wf, of net, folded final_def]
  have s': "s' = (notifySyncComplete (world final))\<lparr>syncInProgress := False\<rparr>"
    unfolding s'_def final_def by (rule syncPendingRequests_runs[OF idle up])
  have q': "queueStore s' = ?st" and c': "console s' = console (world final)"
    and i': "\<not> syncInProgress s'"
    by (simp_all add: s' notifySyncComplete_def)
  have u': "storageAvailable s'"
    using syncLoop_storageAvailable[of net "startLoop (s\<lparr>syncInProgress := True\<rparr>)"] up
    by (simp add: s' notifySyncComplete_def final_def startLoop_def)
  from inv(1) have wf': "wfQueue ?st"
    and S: "\<forall>k r. getItem ?st k = Some r \<longrightarrow> k \<notin> ?P \<longrightarrow> r \<in> set (requests final)"
    and U: "\<forall>k. k \<notin> ?P \<longrightarrow> getItem ?st k = getItem (queueStore s) k"
    and N: "processedCount final + length ?st \<le> length (queueStore s)"
    unfolding queueInv_def by blast+
  from inv(2) obtain new where
    log: "attempted (console (world final)) = attempted (console s) @ new"
    and dist: "distinct (map req_id new)"
    and A: "\<forall>a\<in>set new. req_id a \<in> ?P \<and> req_retries a < 3 \<and>
              getItem (queueStore s) (req_id a) = Some a"
    and Pr: "\<forall>k\<in>?P. \<forall>r. getItem (queueStore s) k = Some r \<longrightarrow> settled net new ?st k r"
    unfolding replayInv_def by blast
  from inv(3) obtain synced where
    syn: "syncedIds (console (world final)) = syncedIds (console s) @ synced"
    and cnt: "length synced = processedCount final"
    unfolding countedSince_def by blast
  have each: "(getItem ?st k = Some r \<and> (\<forall>a\<in>set new. req_id a \<noteq> k)) \<or> settled net new ?st k r"
    if "getItem (queueStore s) k = Some r" for k r
  proof (cases "k \<in> ?P")
    case True
    then show ?thesis using Pr that by blast
  next
    case False
    then show ?thesis using U A that by auto
  qed
  have all: "settled net new ?st k r"
    if complete: "length (syncedIds (console s')) < length (syncedIds (console s)) + 50 \<or>
                  length (queueStore s) \<le> 50"
      and stored: "getItem (queueStore s) k = Some r" for k r
  proof (cases "k \<in> ?P")
    case True
    then show ?thesis using Pr stored by blast
  next
    case False
    then have here: "getItem ?st k = Some r" using U stored by simp
    then have listed: "r \<in> set (requests final)" using S False by blast
    have "processedCount final < 50"
    proof (cases "length (queueStore s) \<le> 50")
      case True
      have "?st \<noteq> []" using here by auto
      then have "1 \<le> length ?st" by (cases ?st) simp_all
      then show ?thesis using N True by linarith
    next
      case False
      then show ?thesis using complete syn cnt by (simp add: c')
    qed
    then have "requests final = []" using inv(4) by (simp add: loopCondition_def)
    then show ?thesis using listed by simp
  qed
  have len: "length ?st \<le> length (queueStore s)" using N by simp
  show ?thesis
    unfolding q'
    using wf' len i' u' log dist A each all
    by (simp only: c') blast
qed

section \<open>The retry budget\<close>

lemma filter_distinct_key:
  "distinct (map f xs) \<Longrightarrow> x \<in> set xs \<Longrightarrow> filter (\<lambda>a. f a = f x) xs = [x]"
proof (induction xs)
  case Nil
  then show ?case by simp
next
  case (Cons y ys)
  show ?case
  proof (cases "y = x")
    case True
    have "f x \<notin> f ` set ys" using Cons.prems(1) True by simp
    then have "\<forall>a\<in>set ys. f a \<noteq> f x" by (metis imageI)
    then have "filter (\<lambda>a. f a = f x) ys = []"
      by (simp add: filter_empty_conv)
    then show ?thesis using True by simp
  next
    case False
    then have "x \<in> set ys" using Cons.prems(2) by simp
    moreover have "f y \<noteq> f x" using Cons.prems(1) \<open>x \<in> set ys\<close> by auto
    ultimately show ?thesis using Cons by simp
  qed
qed

text \<open>
  One drain of a well-formed queue of at most 50 requests, seen from a stored request whose
  replay fails whenever it is tried.
\<close>

lemma drain_failing:
  fixes net :: Net
  assumes wf: "wfQueue (queueStore s)" and small: "length (queueStore s) \<le> 50"
    and idle: "\<not> syncInProgress s" and up: "storageAvailable s"
    and stored: "getItem (queueStore s) k = Some r"
    and fails: "\<forall>s. \<exists>e. fst (processRequest net r s) = Inl e"
  shows "wfQueue (queueStore (drain net s)) \<and> length (queueStore (drain net s)) \<le> 50 \<and>
         \<not> syncInProgress (drain net s) \<and> storageAvailable (drain net s) \<and>
         (if req_retries r < 3
          then getItem (queueStore (drain net s)) k = Some (r\<lparr>req_retries := req_retries r + 1\<rparr>) \<and>
               attemptsOf k (drain net s) = attemptsOf k s @ [r]
          else getItem (queueStore (drain net s)) k = None \<and>
               attemptsOf k (drain net s) = attemptsOf k s)"
proof -
  from drain_outcome[OF wf idle up, of net] obtain new where
    keep: "wfQueue (queueStore (drain net s))" "length (queueStore (drain net s)) \<le> length (queueStore s)"
      "\<not> syncInProgress (drain net s)" "storageAvailable (drain net s)"
    and log: "attempted (console (drain net s)) = attempted (console s) @ new"
    and dist: "distinct (map req_id new)"
    and A: "\<forall>a\<in>set new. req_retries a < 3 \<and> getItem (queueStore s) (req_id a) = Some a"
    and all: "\<forall>k r. getItem (queueStore s) k = Some r \<longrightarrow>
                settled net new (queueStore (drain net s)) k r"
    unfolding drain_def using small by blast
  have id: "req_id r = k" by (rule wfQueue_id[OF wf stored])
  have st: "settled net new (queueStore (drain net s)) k r" using all stored by blast
  have att: "attemptsOf k (drain net s) = attemptsOf k s @ filter (\<lambda>a. req_id a = k) new"
    by (simp add: attemptsOf_def log)
  have "if req_retries r < 3
        then getItem (queueStore (drain net s)) k = Some (r\<lparr>req_retries := req_retries r + 1\<rparr>) \<and>
             attemptsOf k (drain net s) = attemptsOf k s @ [r]
        else getItem (queueStore (drain net s)) k = None \<and>
             attemptsOf k (drain net s) = attemptsOf k s"
  proof (cases "req_retries r < 3")
    case True
    have nofail: "\<not> (\<exists>s. fst (processRequest net r s) = Inr ())"
      using fails by (metis Inl_Inr_False)
    from st True nofail have mem: "r \<in> set new"
      and g: "getItem (queueStore (drain net s)) k = Some (r\<lparr>req_retries := req_retries r + 1\<rparr>)"
      unfolding settled_def by auto
    have "filter (\<lambda>a. req_id a = req_id r) new = [r]"
      by (rule filter_distinct_key[OF dist mem])
    then show ?thesis using True g att id by simp
  next
    case False
    then have g: "getItem (queueStore (drain net s)) k = None"
      using st unfolding settled_def by simp
    have "filter (\<lambda>a. req_id a = k) new = []"
    proof (rule ccontr)
      assume "filter (\<lambda>a. req_id a = k) new \<noteq> []"
      then obtain a where a: "a \<in> set new" "req_id a = k"
        by (auto simp: filter_empty_conv)
      then have "req_retries a < 3" "getItem (queueStore s) k = Some a" using A by auto
      then show False using stored False by simp
    qed
    then show ?thesis using False g att by simp
  qed
  then show ?thesis using keep small by simp
qed

lemma processRequest_retries:
  "processRequest net (r\<lparr>req_retries := n\<rparr>) s = processRequest net r s"
  by (simp add: processRequest_def processApiRequest_def processImageUpload_def
      cong: option.case_cong prod.case_cong sum.case_cong NetReply.case_cong if_cong)

text \<open>
  C2, as the code has it. Take a well-formed queue of at most 50 requests, so that no drain
  stops at its cap before it reaches the request, and a request with \<open>retries = 0\<close> whose
  replay fails every time. After the first, second and third drain the request is still
  stored, with \<open>retries\<close> 1, 2 and 3: the third failed attempt does not remove it. The
  fourth drain deletes it, and makes no attempt: over the four drains the request was
  attempted three times.
\<close>

theorem retry_budget:
  fixes net :: Net
  assumes wf: "wfQueue (queueStore s)" and small: "length (queueStore s) \<le> 50"
    and idle: "\<not> syncInProgress s" and up: "storageAvailable s"
    and stored: "getItem (queueStore s) k = Some r" and fresh: "req_retries r = 0"
    and fails: "\<forall>s. \<exists>e. fst (processRequest net r s) = Inl e"
  shows "getItem (queueStore (drain net s)) k = Some (r\<lparr>req_retries := 1\<rparr>) \<and>
         getItem (queueStore ((drain net ^^ 2) s)) k = Some (r\<lparr>req_retries := 2\<rparr>) \<and>
         getItem (queueStore ((drain net ^^ 3) s)) k = Some (r\<lparr>req_retries := 3\<rparr>) \<and>
         getItem (queueStore ((drain net ^^ 4) s)) k = None \<and>
         attemptsOf k ((drain net ^^ 4) s)
           = attemptsOf k s @ [r, r\<lparr>req_retries := 1\<rparr>, r\<lparr>req_retries := 2\<rparr>]"
proof -
  define s1 where "s1 = drain net s"
  define s2 where "s2 = drain net s1"
  define s3 where "s3 = drain net s2"
  define s4 where "s4 = drain net s3"
  have f: "\<forall>s. \<exists>e. fst (processRequest net (r\<lparr>req_retries := n\<rparr>) s) = Inl e" for n
    using fails by (simp add: processRequest_retries)
  from drain_failing[OF wf small idle up stored fails] fresh
  have k1: "wfQueue (queueStore s1)" "length (queueStore s1) \<le> 50" "\<not> syncInProgress s1"
    "storageAvailable s1" "getItem (queueStore s1) k = Some (r\<lparr>req_retries := 1\<rparr>)"
    and a1: "attemptsOf k s1 = attemptsOf k s @ [r]"
    by (simp_all add: s1_def)
  from drain_failing[OF k1 f]
  have k2: "wfQueue (queueStore s2)" "length (queueStore s2) \<le> 50" "\<not> syncInProgress s2"
    "storageAvailable s2" "getItem (queueStore s2) k = Some (r\<lparr>req_retries := 2\<rparr>)"
    and a2: "attemptsOf k s2 = attemptsOf k s1 @ [r\<lparr>req_retries := 1\<rparr>]"
    by (simp_all add: s2_def)
  from drain_failing[OF k2 f]
  have k3: "wfQueue (queueStore s3)" "length (queueStore s3) \<le> 50" "\<not> syncInProgress s3"
    "storageAvailable s3" "getItem (queueStore s3) k = Some (r\<lparr>req_retries := 3\<rparr>)"
    and a3: "attemptsOf k s3 = attemptsOf k s2 @ [r\<lparr>req_retries := 2\<rparr>]"
    by (simp_all add: s3_def)
  from drain_failing[OF k3 f]
  have k4: "getItem (queueStore s4) k = None" and a4: "attemptsOf k s4 = attemptsOf k s3"
    by (simp_all add: s4_def)
  have p: "(drain net ^^ 2) s = s2" "(drain net ^^ 3) s = s3" "(drain net ^^ 4) s = s4"
    by (simp_all add: s1_def s2_def s3_def s4_def eval_nat_numeral)
  show ?thesis
    unfolding p s1_def[symmetric]
    using k1(5) k2(5) k3(5) k4 a1 a2 a3 a4 by simp
qed

theorem third_failure_keeps_request:
  "console ((drain neverReplies ^^ 3) oneFailing)
     = [Processing (sampleRequest ''a'' 1 0), Failed ''a'' 1,
        Processing (sampleRequest ''a'' 1 1), Failed ''a'' 2,
        Processing (sampleRequest ''a'' 1 2), Failed ''a'' 3] \<and>
   getItem (queueStore ((drain neverReplies ^^ 3) oneFailing)) ''a''
     = Some (sampleRequest ''a'' 1 3)"
  by (simp add: eval_nat_numeral drain_def drain_eval oneFailing_def freshState_def
      sampleRequest_def neverReplies_def)

theorem retry_budget_witness:
  "wfQueue (queueStore oneFailing) \<and> length (queueStore oneFailing) \<le> 50 \<and>
   \<not> syncInProgress oneFailing \<and> storageAvailable oneFailing \<and>
   getItem (queueStore oneFailing) ''a'' = Some (sampleRequest ''a'' 1 0) \<and>
   req_retries (sampleRequest ''a'' 1 0) = 0 \<and>
   (\<forall>s. \<exists>e. fst (processRequest neverReplies (sampleRequest ''a'' 1 0) s) = Inl e) \<and>
   getItem (queueStore ((drain neverReplies ^^ 3) oneFailing)) ''a''
     = Some (sampleRequest ''a'' 1 3) \<and>
   getItem (queueStore ((drain neverReplies ^^ 4) oneFailing)) ''a'' = None \<and>
   attemptsOf ''a'' ((drain neverReplies ^^ 4) oneFailing)
     = [sampleRequest ''a'' 1 0, sampleRequest ''a'' 1 1, sampleRequest ''a'' 1 2]"
proof -
  have h1: "wfQueue (queueStore oneFailing)"
    by (simp add: oneFailing_def freshState_def wfQueue_def sampleRequest_def)
  have h2: "length (queueStore oneFailing) \<le> 50"
    by (simp add: oneFailing_def freshState_def)
  have h3: "\<not> syncInProgress oneFailing" and h4: "storageAvailable oneFailing"
    by (simp_all add: oneFailing_def freshState_def)
  have h5: "getItem (queueStore oneFailing) ''a'' = Some (sampleRequest ''a'' 1 0)"
    by (simp add: oneFailing_def freshState_def)
  have h6: "req_retries (sampleRequest ''a'' 1 0) = 0"
    by (simp add: sampleRequest_def)
  have h7: "\<forall>s. \<exists>e. fst (processRequest neverReplies (sampleRequest ''a'' 1 0) s) = Inl e"
    by (simp add: processRequest_def processApiRequest_def directRequest_def perform_def
        neverReplies_def sampleRequest_def)
  have r: "(sampleRequest ''a'' 1 0)\<lparr>req_retries := n\<rparr> = sampleRequest ''a'' 1 n" for n
    by (simp add: sampleRequest_def)
  have e: "attemptsOf ''a'' oneFailing = []"
    by (simp add: attemptsOf_def oneFailing_def freshState_def)
  from retry_budget[OF h1 h2 h3 h4 h5 h6 h7]
  show ?thesis using h1 h2 h3 h4 h5 h6 h7 by (simp add: r e)
qed

section \<open>Exhausted requests\<close>





section \<open>A drain that stops at its cap\<close>













section \<open>Asset groups: selection\<close>

lemma keepOldest_None:
  "foldl (keepOldest T) acc gs = None \<longleftrightarrow> acc = None \<and> (\<forall>g\<in>set gs. \<not> hasMatchingTempIds T g)"
  by (induction gs arbitrary: acc) (auto simp: keepOldest_def split: option.splits)

lemma keepOldest_Some:
  assumes "foldl (keepOldest T) acc gs = Some g"
  shows "(acc = Some g \<or> (g \<in> set gs \<and> hasMatchingTempIds T g)) \<and>
         (\<forall>g'\<in>set gs. hasMatchingTempIds T g' \<longrightarrow> grp_timestamp g \<le> grp_timestamp g') \<and>
         (\<forall>a. acc = Some a \<longrightarrow> grp_timestamp g \<le> grp_timestamp a)"
  using assms
proof (induction gs arbitrary: acc)
  case Nil
  then show ?case by simp
next
  case (Cons x xs)
  let ?acc' = "keepOldest T acc x"
  from Cons.prems have f: "foldl (keepOldest T) ?acc' xs = Some g" by simp
  note ih = Cons.IH[OF f]
  show ?case
  proof (cases "hasMatchingTempIds T x \<and>
                (case acc of None \<Rightarrow> True | Some f \<Rightarrow> grp_timestamp x < grp_timestamp f)")
    case True
    then have a: "?acc' = Some x" unfolding keepOldest_def by (rule if_P)
    have le: "grp_timestamp g \<le> grp_timestamp x" using ih a by simp
    have "acc = Some g \<or> g \<in> set (x # xs) \<and> hasMatchingTempIds T g"
      using ih a True by auto
    moreover have "\<forall>g'\<in>set (x # xs). hasMatchingTempIds T g' \<longrightarrow>
                     grp_timestamp g \<le> grp_timestamp g'"
      using ih le by simp
    moreover have "\<forall>b. acc = Some b \<longrightarrow> grp_timestamp g \<le> grp_timestamp b"
      using True le by (auto split: option.splits)
    ultimately show ?thesis by blast
  next
    case False
    then have a: "?acc' = acc" unfolding keepOldest_def by (rule if_not_P)
    have accg: "\<forall>b. acc = Some b \<longrightarrow> grp_timestamp g \<le> grp_timestamp b"
      using ih a by simp
    have "acc = Some g \<or> g \<in> set (x # xs) \<and> hasMatchingTempIds T g"
      using ih a by auto
    moreover have "hasMatchingTempIds T x \<longrightarrow> grp_timestamp g \<le> grp_timestamp x"
    proof
      assume m: "hasMatchingTempIds T x"
      then obtain b where b: "acc = Some b" "\<not> grp_timestamp x < grp_timestamp b"
        using False by (auto split: option.splits)
      then show "grp_timestamp g \<le> grp_timestamp x" using accg by fastforce
    qed
    then have "\<forall>g'\<in>set (x # xs). hasMatchingTempIds T g' \<longrightarrow>
                     grp_timestamp g \<le> grp_timestamp g'"
      using ih by simp
    ultimately show ?thesis using accg by blast
  qed
qed

lemma findStoredImagesByTempIds_None:
  "findStoredImagesByTempIds T s = None \<longleftrightarrow>
     (\<forall>g\<in>snd ` set (reportImagesStore s). \<not> hasMatchingTempIds T g)"
  by (simp add: findStoredImagesByTempIds_def keepOldest_None iterate_def)

lemma findStoredImagesByTempIds_Some:
  assumes "findStoredImagesByTempIds T s = Some g"
  shows "g \<in> snd ` set (reportImagesStore s)" "hasMatchingTempIds T g"
    "\<forall>g'\<in>snd ` set (reportImagesStore s). hasMatchingTempIds T g' \<longrightarrow>
        grp_timestamp g \<le> grp_timestamp g'"
  using keepOldest_Some[of T None "iterate (reportImagesStore s)" g] assms
  by (simp_all add: findStoredImagesByTempIds_def iterate_def)

lemma hasMatchingTempIds_Nil: "\<not> hasMatchingTempIds [] g"
  by (simp add: hasMatchingTempIds_def list_ex_iff)

lemma findStoredImagesByTempIds_Nil: "findStoredImagesByTempIds [] s = None"
  by (simp add: findStoredImagesByTempIds_None hasMatchingTempIds_Nil)

lemma wfGroups_stored:
  "wfGroups st \<Longrightarrow> g \<in> snd ` set st \<Longrightarrow> getItem st (grp_id g) = Some g"
  by (force simp: wfGroups_def getItem_Some_iff)

lemma wfGroups_setItem: "wfGroups st \<Longrightarrow> grp_id g = k \<Longrightarrow> wfGroups (setItem k g st)"
  using set_setItem_subset[of k g st] by (auto simp: wfGroups_def distinct_setItem)

lemma wfGroups_storeOfflineReportImages:
  "wfGroups (reportImagesStore s) \<Longrightarrow>
   wfGroups (reportImagesStore (snd (storeOfflineReportImages reader idClock now images s)))"
  by (simp add: storeOfflineReportImages_def Let_def wfGroups_setItem split: sum.splits)

section \<open>Asset groups: matching the stored images\<close>

lemma decodes_iff: "decodes i \<longleftrightarrow> (\<exists>f. decode i = Inr f)"
  by (cases "decode i") (simp_all add: decodes_def)

lemma decodedFiles_Cons:
  "decode i = Inr f \<Longrightarrow> decodedFiles (i # imgs) = f # decodedFiles imgs"
  by (simp add: decodedFiles_def)

lemma length_decodedFiles: "list_all decodes imgs \<Longrightarrow> length (decodedFiles imgs) = length imgs"
  by (induction imgs) (auto simp: decodedFiles_def decodes_def split: sum.splits)

lemma matchImages_decoded:
  assumes "list_all decodes (filter (hasDbItem items) imgs)"
  shows "matchImages items imgs =
     (Inr (List.map_filter (metadataFor items) imgs,
           decodedFiles (filter (hasDbItem items) imgs)),
      map (\<lambda>i. noItemWarning (ri_tempId i)) (filter (\<lambda>i. \<not> hasDbItem items i) imgs))"
  using assms
proof (induction imgs)
  case Nil
  then show ?case by (simp add: List.map_filter_simps decodedFiles_def)
next
  case (Cons i imgs)
  show ?case
  proof (cases "find (\<lambda>item. si_tempId item = Some (ri_tempId i)) items")
    case None
    then have n: "\<not> hasDbItem items i" "metadataFor items i = None"
      by (simp_all add: hasDbItem_def metadataFor_def)
    then show ?thesis using Cons None by (simp add: List.map_filter_simps)
  next
    case (Some dbItem)
    then have h: "hasDbItem items i" by (simp add: hasDbItem_def)
    then obtain f where f: "decode i = Inr f" using Cons.prems by (auto simp: decodes_iff)
    have rest: "list_all decodes (filter (hasDbItem items) imgs)" using Cons.prems h by simp
    show ?thesis
      using Cons.IH[OF rest] Some h f decodedFiles_Cons[OF f]
      by (simp add: List.map_filter_simps metadataFor_def decode_def)
  qed
qed

lemma matchImages_undecoded:
  assumes "\<not> list_all decodes (filter (hasDbItem items) imgs)"
  shows "\<exists>e ws. matchImages items imgs = (Inl e, ws)"
  using assms
proof (induction imgs)
  case Nil
  then show ?case by simp
next
  case (Cons i imgs)
  show ?case
  proof (cases "find (\<lambda>item. si_tempId item = Some (ri_tempId i)) items")
    case None
    then have "\<not> hasDbItem items i" by (simp add: hasDbItem_def)
    then have "\<not> list_all decodes (filter (hasDbItem items) imgs)" using Cons.prems by simp
    from Cons.IH[OF this] show ?thesis using None by auto
  next
    case (Some dbItem)
    then have h: "hasDbItem items i" by (simp add: hasDbItem_def)
    show ?thesis
    proof (cases "decode i")
      case (Inl e)
      then show ?thesis using Some by (simp add: decode_def)
    next
      case (Inr f)
      then have "decodes i" by (simp add: decodes_def)
      then have "\<not> list_all decodes (filter (hasDbItem items) imgs)"
        using Cons.prems h by simp
      from Cons.IH[OF this] show ?thesis using Some Inr by (auto simp: decode_def)
    qed
  qed
qed

lemma length_map_filter_metadataFor:
  "length (List.map_filter (metadataFor items) imgs) = length (filter (hasDbItem items) imgs)"
  by (induction imgs)
     (auto simp: List.map_filter_simps metadataFor_def hasDbItem_def split: option.splits)

lemma metadataFor_description:
  "m \<in> set (List.map_filter (metadataFor items) imgs) \<Longrightarrow> \<exists>d. description m = Some d \<and> d \<noteq> []"
  by (induction imgs)
     (auto simp: List.map_filter_simps metadataFor_def split: option.splits if_splits)

lemma metadataFields_described:
  assumes "\<forall>m\<in>set metas. \<exists>d. description m = Some d \<and> d \<noteq> []"
  shows "metadataFields metas =
     concat (map (\<lambda>(index, meta).
                   (''images['' @ digits index @ ''][itemId]'', Text (toString (itemId meta))) #
                   (case description meta of
                      None \<Rightarrow> []
                    | Some d \<Rightarrow> [(''images['' @ digits index @ ''][description]'', Text d)]))
                 (enumerate 0 metas))"
proof -
  have e: "\<And>p. p \<in> set (enumerate 0 metas) \<Longrightarrow> \<exists>d. description (snd p) = Some d \<and> d \<noteq> []"
    using assms by (auto simp: enumerate_eq_zip dest: set_zip_rightD)
  show ?thesis
    unfolding metadataFields_def
  proof (intro arg_cong[where f = concat] map_cong refl)
    fix p assume "p \<in> set (enumerate 0 metas)"
    then obtain d where "description (snd p) = Some d" "d \<noteq> []" using e by blast
    then show "(case p of (index, img) \<Rightarrow>
                  (''images['' @ digits index @ ''][itemId]'', Text (toString (itemId img))) #
                  (case description img of
                     None \<Rightarrow> []
                   | Some d \<Rightarrow> if d \<noteq> []
                               then [(''images['' @ digits index @ ''][description]'', Text d)]
                               else []))
             = (case p of (index, meta) \<Rightarrow>
                  (''images['' @ digits index @ ''][itemId]'', Text (toString (itemId meta))) #
                  (case description meta of
                     None \<Rightarrow> []
                   | Some d \<Rightarrow> [(''images['' @ digits index @ ''][description]'', Text d)]))"
      by (cases p) simp
  qed
qed

lemma image_fields_swap:
  "map (\<lambda>(file, meta). (''image_'' @ toString (itemId meta), Blob file)) (zip fs ms)
   = map (\<lambda>(meta, file). (''image_'' @ toString (itemId meta), Blob file)) (zip ms fs)"
  by (induction fs ms rule: list_induct2') simp_all

lemma uploadForm_matched:
  "uploadForm \<lparr> up_reportId = rd_id rep,
                up_images = List.map_filter (metadataFor (rd_items rep)) (grp_images g),
                up_files = decodedFiles (matchedImages rep g) \<rparr>
   = uploadedForm rep g"
proof -
  let ?metas = "List.map_filter (metadataFor (rd_items rep)) (grp_images g)"
  let ?files = "decodedFiles (matchedImages rep g)"
  have z: "map (\<lambda>(file, image). (''image_'' @ toString (itemId image), Blob file)) (zip ?files ?metas)
         = map (\<lambda>(meta, file). (''image_'' @ toString (itemId meta), Blob file)) (zip ?metas ?files)"
    by (rule image_fields_swap)
  have m: "\<forall>m\<in>set ?metas. \<exists>d. description m = Some d \<and> d \<noteq> []"
    using metadataFor_description by blast
  show ?thesis
    unfolding uploadForm_def uploadedForm_def Let_def
    using z by (simp add: metadataFields_described[OF m])
qed

section \<open>Asset groups: upload and clean-up\<close>

lemma findAndUploadReportImages_eq:
  "findAndUploadReportImages net rep s =
     (case findStoredImagesByTempIds (reportTempIds rep) s of
        None \<Rightarrow> (Inr (), s)
      | Some g \<Rightarrow> uploadImagesForSyncedReport net rep g s)"
proof (cases "reportTempIds rep = []")
  case True
  then show ?thesis
    by (simp add: findAndUploadReportImages_def findStoredImagesByTempIds_Nil)
next
  case False
  then have "rd_items rep \<noteq> []" by (auto simp: reportTempIds_def List.map_filter_simps)
  then show ?thesis using False by (simp add: findAndUploadReportImages_def)
qed

text \<open>An upload whose files all have metadata makes its request, whatever the answer.\<close>

lemma uploadImages_sent:
  assumes "length (up_files u) \<le> length (up_images u)"
  shows "snd (uploadImages net token u s)
           = s\<lparr>netLog := netLog s @ [uploadCall token (uploadForm u)]\<rparr>"
    and "(\<exists>result. fst (uploadImages net token u s) = Inr (Some result))
           \<longleftrightarrow> uploadAccepted (net (length (netLog s)) (uploadCall token (uploadForm u)))"
  using assms
  by (auto simp: uploadImages_def perform_def uploadCall_def uploadAccepted_def statusOk_def
      split: NetReply.splits option.splits)

text \<open>
  What reconciling with a group does, in each of its cases: the group has no image; a
  matched image does not decode; no image is matched; there is no token; the upload is
  made and is or is not accepted.
\<close>

lemma uploadImagesForSyncedReport_outcome:
  "reportImagesStore (snd (uploadImagesForSyncedReport net rep g s))
     = (if groupDeleted net rep g s then removeItem (grp_id g) (reportImagesStore s)
        else reportImagesStore s) \<and>
   netLog (snd (uploadImagesForSyncedReport net rep g s))
     = netLog s @ (if batchUploaded rep g s then [uploadCall (bearer s) (uploadedForm rep g)]
                   else []) \<and>
   (fst (uploadImagesForSyncedReport net rep g s) = Inr ()
      \<longleftrightarrow> grp_images g = [] \<or> groupDeleted net rep g s) \<and>
   (grp_images g \<noteq> [] \<and> list_all decodes (matchedImages rep g) \<longrightarrow>
      console (snd (uploadImagesForSyncedReport net rep g s))
        = console s @ unmatchedWarnings rep g @
            (if matchedImages rep g = []
             then [Warn ''No valid images to upload after processing''] else []))"
proof (cases "grp_images g = []")
  case True
  then show ?thesis
    by (simp add: uploadImagesForSyncedReport_def groupDeleted_def batchUploaded_def
        matchedImages_def)
next
  case imgs: False
  show ?thesis
  proof (cases "list_all decodes (matchedImages rep g)")
    case False
    then obtain e ws where m: "matchImages (rd_items rep) (grp_images g) = (Inl e, ws)"
      using matchImages_undecoded[of "rd_items rep" "grp_images g"]
      by (auto simp: matchedImages_def)
    have ne: "matchedImages rep g \<noteq> []" using False by auto
    show ?thesis
      using imgs False ne
      by (simp add: uploadImagesForSyncedReport_def m groupDeleted_def batchUploaded_def)
  next
    case dec: True
    let ?metas = "List.map_filter (metadataFor (rd_items rep)) (grp_images g)"
    let ?files = "decodedFiles (matchedImages rep g)"
    let ?s1 = "s\<lparr>console := console s @ unmatchedWarnings rep g\<rparr>"
    define ws where "ws = map (\<lambda>i. noItemWarning (ri_tempId i))
                  (filter (\<lambda>i. \<not> hasDbItem (rd_items rep) i) (grp_images g))"
    have m: "matchImages (rd_items rep) (grp_images g) = (Inr (?metas, ?files), ws)"
      using matchImages_decoded[of "rd_items rep" "grp_images g"] dec
      by (simp add: matchedImages_def ws_def)
    have w: "map Warn ws = unmatchedWarnings rep g"
      by (simp add: unmatchedWarnings_def ws_def)
    have lm: "length ?metas = length (matchedImages rep g)"
      by (simp add: length_map_filter_metadataFor matchedImages_def)
    have lf: "length ?files = length (matchedImages rep g)"
      by (rule length_decodedFiles[OF dec])
    show ?thesis
    proof (cases "matchedImages rep g = []")
      case True
      then have "?metas = []" using lm by simp
      then show ?thesis
        using imgs dec True
        by (simp add: uploadImagesForSyncedReport_def m w groupDeleted_def batchUploaded_def
            removeStoredReportImages_def logLine_def Let_def)
    next
      case some: False
      then have pos: "0 < length ?metas" "0 < length ?files" using lm lf by simp_all
      have unfold: "uploadImagesForSyncedReport net rep g s =
            (case accessToken s of
               None \<Rightarrow> (Inl (JsError ''No authentication token available''), ?s1)
             | Some token \<Rightarrow>
                 if token = [] then (Inl (JsError ''No authentication token available''), ?s1)
                 else (case uploadImages net token
                              \<lparr> up_reportId = rd_id rep, up_images = ?metas,
                                up_files = ?files \<rparr> ?s1 of
                         (Inl e, s2) \<Rightarrow> (Inl e, s2)
                       | (Inr None, s2) \<Rightarrow> (Inl (JsError ''Image upload failed''), s2)
                       | (Inr (Some uploadResult), s2) \<Rightarrow>
                           (Inr (), removeStoredReportImages (grp_id g) s2)))"
        using imgs pos
        by (simp add: uploadImagesForSyncedReport_def m w Let_def split: option.splits)
      show ?thesis
      proof (cases "tokenPresent (accessToken s)")
        case False
        then show ?thesis
          using imgs dec some
          by (auto simp: unfold groupDeleted_def batchUploaded_def tokenPresent_def
              split: option.splits)
      next
        case True
        then obtain token where t: "accessToken s = Some token" "token \<noteq> []"
          by (auto simp: tokenPresent_def split: option.splits)
        let ?u = "\<lparr> up_reportId = rd_id rep, up_images = ?metas, up_files = ?files \<rparr>"
        have len: "length (up_files ?u) \<le> length (up_images ?u)" using lm lf by simp
        have form: "uploadForm ?u = uploadedForm rep g" by (rule uploadForm_matched)
        have b: "bearer s = token" by (simp add: bearer_def t)
        obtain res s2 where u: "uploadImages net token ?u ?s1 = (res, s2)"
          by (cases "uploadImages net token ?u ?s1")
        have s2: "s2 = ?s1\<lparr>netLog := netLog s @ [uploadCall token (uploadedForm rep g)]\<rparr>"
          using uploadImages_sent(1)[OF len, of net token ?s1] u form by simp
        have acc: "(\<exists>result. res = Inr (Some result))
                   \<longleftrightarrow> uploadAccepted (net (length (netLog s))
                                         (uploadCall token (uploadedForm rep g)))"
          using uploadImages_sent(2)[OF len, of net token ?s1] u form by simp
        have up: "batchUploaded rep g s" using some dec True by (simp add: batchUploaded_def)
        have del: "groupDeleted net rep g s \<longleftrightarrow> (\<exists>result. res = Inr (Some result))"
          using imgs some up acc by (simp add: groupDeleted_def b)
        have eq: "uploadImagesForSyncedReport net rep g s =
                  (case res of
                     Inl e \<Rightarrow> (Inl e, s2)
                   | Inr None \<Rightarrow> (Inl (JsError ''Image upload failed''), s2)
                   | Inr (Some uploadResult) \<Rightarrow> (Inr (), removeStoredReportImages (grp_id g) s2))"
          by (simp add: unfold t u)
        show ?thesis
        proof (cases "\<exists>result. res = Inr (Some result)")
          case True
          then obtain result where r: "res = Inr (Some result)" by blast
          show ?thesis
            using imgs dec some up del True
            by (simp add: eq r s2 b removeStoredReportImages_def)
        next
          case False
          then have "fst (uploadImagesForSyncedReport net rep g s) \<noteq> Inr ()"
            "snd (uploadImagesForSyncedReport net rep g s) = s2"
            by (auto simp: eq split: sum.splits option.splits)
          then show ?thesis
            using imgs dec some up del False by (simp add: s2 b)
        qed
      qed
    qed
  qed
qed

lemma findAndUploadReportImages_outcome:
  assumes "findStoredImagesByTempIds (reportTempIds rep) s = Some g"
  shows "reportImagesStore (snd (findAndUploadReportImages net rep s))
     = (if groupDeleted net rep g s then removeItem (grp_id g) (reportImagesStore s)
        else reportImagesStore s)"
    and "netLog (snd (findAndUploadReportImages net rep s))
     = netLog s @ (if batchUploaded rep g s then [uploadCall (bearer s) (uploadedForm rep g)]
                   else [])"
    and "fst (findAndUploadReportImages net rep s) = Inr ()
      \<longleftrightarrow> grp_images g = [] \<or> groupDeleted net rep g s"
    and "grp_images g \<noteq> [] \<and> list_all decodes (matchedImages rep g) \<longrightarrow>
      console (snd (findAndUploadReportImages net rep s))
        = console s @ unmatchedWarnings rep g @
            (if matchedImages rep g = []
             then [Warn ''No valid images to upload after processing''] else [])"
  using uploadImagesForSyncedReport_outcome[of net rep g s] assms
  by (simp_all add: findAndUploadReportImages_eq)

section \<open>Reconciliation after a create-report replay\<close>

lemma findStoredImagesByTempIds_netLog [simp]:
  "findStoredImagesByTempIds T (s\<lparr>netLog := nl\<rparr>) = findStoredImagesByTempIds T s"
  by (simp add: findStoredImagesByTempIds_def)

lemma batchUploaded_netLog [simp]:
  "batchUploaded rep g (s\<lparr>netLog := nl\<rparr>) = batchUploaded rep g s"
  by (simp add: batchUploaded_def)

lemma bearer_netLog [simp]: "bearer (s\<lparr>netLog := nl\<rparr>) = bearer s"
  by (simp add: bearer_def)

lemma directRequest_ok:
  assumes "net (length (netLog s)) (requestCall ep opts) = Reply status data" and "statusOk status"
  shows "directRequest net ep opts s = (Inr data, s\<lparr>netLog := netLog s @ [requestCall ep opts]\<rparr>)"
  using assms by (simp add: directRequest_def perform_def statusOk_def)

lemma processApiRequest_create:
  assumes create: "req_endpoint r = ''/price-reports''" "req_method r = ''POST''"
    and replayed: "net (length (netLog s)) (replayCall r) = Reply status (Some rep)"
      "statusOk status"
  shows "processApiRequest net r s =
           (if tokenPresent (accessToken s)
            then (case findAndUploadReportImages net rep (s\<lparr>netLog := netLog s @ [replayCall r]\<rparr>) of
                    (Inl e, s2) \<Rightarrow>
                      (Inr (), logLine (Warn ''Failed to get full report for image upload:'') s2)
                  | (Inr u, s2) \<Rightarrow> (Inr (), s2))
            else (Inr (), s\<lparr>netLog := netLog s @ [replayCall r]\<rparr>))"
  using create replayed
    directRequest_ok[where net = net and s = s and status = status and data = "Some rep"
      and ep = "req_endpoint r" and opts = "replayOptions r"]
  by (simp add: processApiRequest_def replayCall_def replayOptions_def)

lemma wfGroups_deleted:
  assumes "wfGroups st" "getItem st (grp_id g) = Some g"
  shows "getItem (if d then removeItem (grp_id g) st else st) (grp_id g) = None \<longleftrightarrow> d"
  using assms by (simp add: getItem_removeItem)

lemma processApiRequest_reconciles:
  fixes net :: Net
  assumes create: "req_endpoint r = ''/price-reports''" "req_method r = ''POST''"
    and replayed: "net (length (netLog s)) (replayCall r) = Reply status (Some rep)"
      "statusOk status"
    and wf: "wfGroups (reportImagesStore s)"
    and found: "findStoredImagesByTempIds (reportTempIds rep) s = Some g"
  shows "fst (processApiRequest net r s) = Inr () \<and>
         getItem (reportImagesStore s) (grp_id g) = Some g \<and>
         netLog (snd (processApiRequest net r s))
           = netLog s @ replayCall r #
               (if batchUploaded rep g s then [uploadCall (bearer s) (uploadedForm rep g)]
                else []) \<and>
         reportImagesStore (snd (processApiRequest net r s))
           = (if tokenPresent (accessToken s) \<and>
                 groupDeleted net rep g (s\<lparr>netLog := netLog s @ [replayCall r]\<rparr>)
              then removeItem (grp_id g) (reportImagesStore s) else reportImagesStore s) \<and>
         (getItem (reportImagesStore (snd (processApiRequest net r s))) (grp_id g) = None
            \<longleftrightarrow> tokenPresent (accessToken s) \<and>
                groupDeleted net rep g (s\<lparr>netLog := netLog s @ [replayCall r]\<rparr>)) \<and>
         (tokenPresent (accessToken s) \<and> grp_images g \<noteq> [] \<and>
          list_all decodes (matchedImages rep g) \<longrightarrow>
            console (snd (processApiRequest net r s))
              = console s @ unmatchedWarnings rep g @
                  (if matchedImages rep g = []
                   then [Warn ''No valid images to upload after processing'']
                   else if groupDeleted net rep g (s\<lparr>netLog := netLog s @ [replayCall r]\<rparr>)
                        then []
                        else [Warn ''Failed to get full report for image upload:'']))"
proof -
  define s1 where "s1 = s\<lparr>netLog := netLog s @ [replayCall r]\<rparr>"
  have stored: "getItem (reportImagesStore s) (grp_id g) = Some g"
    using wfGroups_stored[OF wf] findStoredImagesByTempIds_Some(1)[OF found] by simp
  have f1: "findStoredImagesByTempIds (reportTempIds rep) s1 = Some g"
    using found by (simp add: s1_def)
  note o = findAndUploadReportImages_outcome[OF f1, of net]
  have p: "processApiRequest net r s =
           (if tokenPresent (accessToken s)
            then (case findAndUploadReportImages net rep s1 of
                    (Inl e, s2) \<Rightarrow>
                      (Inr (), logLine (Warn ''Failed to get full report for image upload:'') s2)
                  | (Inr u, s2) \<Rightarrow> (Inr (), s2))
            else (Inr (), s1))"
    unfolding s1_def
    using processApiRequest_create[where net = net and r = r and s = s and status = status
        and rep = rep] create replayed
    by blast
  show ?thesis
  proof (cases "tokenPresent (accessToken s)")
    case False
    then have "processApiRequest net r s = (Inr (), s1)" by (simp add: p)
    then show ?thesis using False stored by (simp add: s1_def batchUploaded_def)
  next
    case True
    obtain res s2 where f: "findAndUploadReportImages net rep s1 = (res, s2)"
      by (cases "findAndUploadReportImages net rep s1")
    have st: "reportImagesStore s2
                = (if groupDeleted net rep g s1 then removeItem (grp_id g) (reportImagesStore s)
                   else reportImagesStore s)"
      and lg: "netLog s2 = netLog s @ replayCall r #
                 (if batchUploaded rep g s then [uploadCall (bearer s) (uploadedForm rep g)]
                  else [])"
      and rs: "res = Inr () \<longleftrightarrow> grp_images g = [] \<or> groupDeleted net rep g s1"
      and cs: "grp_images g \<noteq> [] \<and> list_all decodes (matchedImages rep g) \<longrightarrow>
                 console s2 = console s @ unmatchedWarnings rep g @
                   (if matchedImages rep g = []
                    then [Warn ''No valid images to upload after processing''] else [])"
      using o f by (simp_all add: s1_def)
    have q: "processApiRequest net r s
             = (Inr (), if res = Inr () then s2
                        else logLine (Warn ''Failed to get full report for image upload:'') s2)"
      using True f by (cases res) (simp_all add: p)
    have c1: "fst (processApiRequest net r s) = Inr ()" by (simp add: q)
    have c3: "netLog (snd (processApiRequest net r s)) = netLog s @ replayCall r #
                 (if batchUploaded rep g s then [uploadCall (bearer s) (uploadedForm rep g)]
                  else [])"
      using lg by (simp add: q logLine_def)
    have c4: "reportImagesStore (snd (processApiRequest net r s))
                = (if groupDeleted net rep g s1 then removeItem (grp_id g) (reportImagesStore s)
                   else reportImagesStore s)"
      using st by (simp add: q logLine_def)
    have c5: "getItem (reportImagesStore (snd (processApiRequest net r s))) (grp_id g) = None
                \<longleftrightarrow> groupDeleted net rep g s1"
      unfolding c4 by (rule wfGroups_deleted[OF wf stored])
    have c6: "grp_images g \<noteq> [] \<and> list_all decodes (matchedImages rep g) \<longrightarrow>
                console (snd (processApiRequest net r s))
                  = console s @ unmatchedWarnings rep g @
                      (if matchedImages rep g = []
                       then [Warn ''No valid images to upload after processing'']
                       else if groupDeleted net rep g s1 then []
                            else [Warn ''Failed to get full report for image upload:''])"
    proof
      assume a: "grp_images g \<noteq> [] \<and> list_all decodes (matchedImages rep g)"
      then have "matchedImages rep g = [] \<Longrightarrow> groupDeleted net rep g s1"
        by (simp add: groupDeleted_def)
      then show "console (snd (processApiRequest net r s))
                  = console s @ unmatchedWarnings rep g @
                      (if matchedImages rep g = []
                       then [Warn ''No valid images to upload after processing'']
                       else if groupDeleted net rep g s1 then []
                            else [Warn ''Failed to get full report for image upload:''])"
        using a cs rs by (auto simp: q logLine_def)
    qed
    show ?thesis
      using True c1 stored c3 c4 c5 c6 unfolding s1_def by simp
  qed
qed

text \<open>
  C5, as the code has it. Take a create-report request whose replay the server answers
  with a saved report, and the stored group that the reconciliation finds for that report.
  The replay succeeds in every case. The batch is uploaded when an access token is stored,
  some image of the group has a saved item and every such image decodes; the upload then
  holds exactly the matched images, decoded, under their real item ids, and nothing of the
  others. When the group has images and they all decode, each image without a saved item
  gets its warning. The group is deleted exactly when a token is stored, the group has
  images, and either no image is matched or the batch is uploaded and the upload is
  accepted; in every other case, a rejected upload among them, the group stays stored.
\<close>

theorem partial_reconciliation:
  fixes net :: Net
  assumes create: "req_endpoint r = ''/price-reports''" "req_method r = ''POST''"
    and replayed: "net (length (netLog s)) (replayCall r) = Reply status (Some rep)"
      "statusOk status"
    and wf: "wfGroups (reportImagesStore s)"
    and found: "findStoredImagesByTempIds (reportTempIds rep) s = Some g"
  shows "fst (processApiRequest net r s) = Inr () \<and>
         getItem (reportImagesStore s) (grp_id g) = Some g \<and>
         netLog (snd (processApiRequest net r s))
           = netLog s @ replayCall r #
               (if batchUploaded rep g s then [uploadCall (bearer s) (uploadedForm rep g)]
                else []) \<and>
         reportImagesStore (snd (processApiRequest net r s))
           = (if tokenPresent (accessToken s) \<and>
                 groupDeleted net rep g (s\<lparr>netLog := netLog s @ [replayCall r]\<rparr>)
              then removeItem (grp_id g) (reportImagesStore s) else reportImagesStore s) \<and>
         (getItem (reportImagesStore (snd (processApiRequest net r s))) (grp_id g) = None
            \<longleftrightarrow> tokenPresent (accessToken s) \<and>
                groupDeleted net rep g (s\<lparr>netLog := netLog s @ [replayCall r]\<rparr>)) \<and>
         (tokenPresent (accessToken s) \<and> grp_images g \<noteq> [] \<and>
          list_all decodes (matchedImages rep g) \<longrightarrow>
            console (snd (processApiRequest net r s))
              = console s @ unmatchedWarnings rep g @
                  (if matchedImages rep g = []
                   then [Warn ''No valid images to upload after processing'']
                   else if groupDeleted net rep g (s\<lparr>netLog := netLog s @ [replayCall r]\<rparr>)
                        then []
                        else [Warn ''Failed to get full report for image upload:'']))"
  using create replayed wf found by (rule processApiRequest_reconciles)

lemma atob_sample: "atob ''AA=='' = Some [CHR 0x00]"
  by code_simp

lemma decode_sample:
  "decode (imageOf t) = Inr (File (''item-'' @ t @ ''.jpg'') ''image/jpeg'' [CHR 0x00])"
  by (simp add: decode_def imageOf_def base64ToFile_def atob_sample blobType_def Let_def)

lemma twoGroups_found:
  "findStoredImagesByTempIds (reportTempIds sampleReport) twoGroups
   = Some (groupOf ''g1'' 5 [''t1'', ''t2''])"
  by (simp add: findStoredImagesByTempIds_def reportTempIds_def sampleReport_def twoGroups_def
      freshState_def iterate_def keepOldest_def hasMatchingTempIds_def groupOf_def
      List.map_filter_simps)

lemma twoGroups_wf: "wfGroups (reportImagesStore twoGroups)"
  by (simp add: wfGroups_def twoGroups_def freshState_def groupOf_def)

lemma twoGroups_matched:
  "matchedImages sampleReport (groupOf ''g1'' 5 [''t1'', ''t2'']) = [imageOf ''t1'']"
  by (simp add: matchedImages_def hasDbItem_def sampleReport_def groupOf_def imageOf_def)

lemma twoGroups_unmatched:
  "unmatchedWarnings sampleReport (groupOf ''g1'' 5 [''t1'', ''t2''])
   = [Warn ''No database item found for tempId: t2'']"
  by (simp add: unmatchedWarnings_def hasDbItem_def sampleReport_def groupOf_def imageOf_def
      noItemWarning_def)

lemma twoGroups_form:
  "uploadedForm sampleReport (groupOf ''g1'' 5 [''t1'', ''t2''])
   = [(''reportId'', Text ''7''), (''images[0][itemId]'', Text ''42''),
      (''images[0][description]'', Text ''Image for item 42''),
      (''image_42'', Blob (File ''item-t1.jpg'' ''image/jpeg'' [CHR 0x00]))]"
proof -
  have m: "List.map_filter (metadataFor (rd_items sampleReport))
             (grp_images (groupOf ''g1'' 5 [''t1'', ''t2'']))
           = [\<lparr> itemId = 42, description = Some ''Image for item 42'' \<rparr>]"
    by (simp add: metadataFor_def sampleReport_def groupOf_def imageOf_def
        List.map_filter_simps toString_def digits.simps)
  have f: "decodedFiles [imageOf ''t1''] = [File ''item-t1.jpg'' ''image/jpeg'' [CHR 0x00]]"
    by (simp add: decodedFiles_def decode_sample)
  show ?thesis
    unfolding uploadedForm_def Let_def m twoGroups_matched f
    by (simp add: sampleReport_def toString_def digits.simps enumerate_eq_zip)
qed

lemma twoGroups_batch: "batchUploaded sampleReport (groupOf ''g1'' 5 [''t1'', ''t2'']) twoGroups"
  by (simp add: batchUploaded_def twoGroups_matched decodes_def decode_sample tokenPresent_def
      twoGroups_def freshState_def)

text \<open>
  A group with one matched and one unmatched image, and an upload that the server answers
  with status 500: the replay succeeds, the upload with the matched image has been made,
  and the group is still stored.
\<close>

theorem rejected_upload_keeps_group:
  "findStoredImagesByTempIds (reportTempIds sampleReport) twoGroups
     = Some (groupOf ''g1'' 5 [''t1'', ''t2'']) \<and>
   matchedImages sampleReport (groupOf ''g1'' 5 [''t1'', ''t2'']) = [imageOf ''t1''] \<and>
   fst (processApiRequest rejectsUpload createRequest twoGroups) = Inr () \<and>
   netLog (snd (processApiRequest rejectsUpload createRequest twoGroups))
     = [replayCall createRequest,
        Fetch ''https://ats-system-two.vercel.app/api/upload'' ''Bearer tok''
          [(''reportId'', Text ''7''), (''images[0][itemId]'', Text ''42''),
           (''images[0][description]'', Text ''Image for item 42''),
           (''image_42'', Blob (File ''item-t1.jpg'' ''image/jpeg'' [CHR 0x00]))]] \<and>
   getItem (reportImagesStore (snd (processApiRequest rejectsUpload createRequest twoGroups)))
     ''g1'' = Some (groupOf ''g1'' 5 [''t1'', ''t2''])"
proof -
  have c: "req_endpoint createRequest = ''/price-reports''" "req_method createRequest = ''POST''"
    by (simp_all add: createRequest_def)
  have r: "rejectsUpload (length (netLog twoGroups)) (replayCall createRequest)
             = Reply 201 (Some sampleReport)" "statusOk 201"
    by (simp_all add: rejectsUpload_def replayCall_def requestCall_def statusOk_def Let_def)
  have nd: "\<not> groupDeleted rejectsUpload sampleReport (groupOf ''g1'' 5 [''t1'', ''t2''])
               (twoGroups\<lparr>netLog := netLog twoGroups @ [replayCall createRequest]\<rparr>)"
    by (simp add: groupDeleted_def twoGroups_matched rejectsUpload_def uploadCall_def
        uploadAccepted_def)
  have b: "bearer twoGroups = ''tok''" "netLog twoGroups = []"
    "getItem (reportImagesStore twoGroups) ''g1'' = Some (groupOf ''g1'' 5 [''t1'', ''t2''])"
    by (simp_all add: bearer_def twoGroups_def freshState_def)
  from processApiRequest_reconciles[where net = rejectsUpload and r = createRequest
      and s = twoGroups and status = 201 and rep = sampleReport
      and g = "groupOf ''g1'' 5 [''t1'', ''t2'']", OF c r twoGroups_wf twoGroups_found]
  show ?thesis
    using nd twoGroups_batch twoGroups_found twoGroups_matched
    by (simp add: twoGroups_form b uploadCall_def)
qed

theorem partial_reconciliation_witness:
  "req_endpoint createRequest = ''/price-reports'' \<and> req_method createRequest = ''POST'' \<and>
   savesReport (length (netLog twoGroups)) (replayCall createRequest)
     = Reply 201 (Some sampleReport) \<and>
   statusOk 201 \<and> wfGroups (reportImagesStore twoGroups) \<and>
   findStoredImagesByTempIds (reportTempIds sampleReport) twoGroups
     = Some (groupOf ''g1'' 5 [''t1'', ''t2'']) \<and>
   fst (processApiRequest savesReport createRequest twoGroups) = Inr () \<and>
   netLog (snd (processApiRequest savesReport createRequest twoGroups))
     = [replayCall createRequest,
        Fetch ''https://ats-system-two.vercel.app/api/upload'' ''Bearer tok''
          [(''reportId'', Text ''7''), (''images[0][itemId]'', Text ''42''),
           (''images[0][description]'', Text ''Image for item 42''),
           (''image_42'', Blob (File ''item-t1.jpg'' ''image/jpeg'' [CHR 0x00]))]] \<and>
   reportImagesStore (snd (processApiRequest savesReport createRequest twoGroups))
     = [(''g2'', groupOf ''g2'' 9 [''t1''])] \<and>
   console (snd (processApiRequest savesReport createRequest twoGroups))
     = [Warn ''No database item found for tempId: t2'']"
proof -
  have c: "req_endpoint createRequest = ''/price-reports''" "req_method createRequest = ''POST''"
    by (simp_all add: createRequest_def)
  have r: "savesReport (length (netLog twoGroups)) (replayCall createRequest)
             = Reply 201 (Some sampleReport)" "statusOk 201"
    by (simp_all add: savesReport_def statusOk_def)
  have d: "groupDeleted savesReport sampleReport (groupOf ''g1'' 5 [''t1'', ''t2''])
             (twoGroups\<lparr>netLog := netLog twoGroups @ [replayCall createRequest]\<rparr>)"
    using twoGroups_batch
    by (simp add: groupDeleted_def twoGroups_matched savesReport_def uploadAccepted_def
        groupOf_def)
  have b: "bearer twoGroups = ''tok''" "netLog twoGroups = []" "console twoGroups = []"
    "tokenPresent (accessToken twoGroups)"
    "removeItem (grp_id (groupOf ''g1'' 5 [''t1'', ''t2''])) (reportImagesStore twoGroups)
       = [(''g2'', groupOf ''g2'' 9 [''t1''])]"
    "grp_images (groupOf ''g1'' 5 [''t1'', ''t2'']) \<noteq> []"
    by (simp_all add: bearer_def twoGroups_def freshState_def tokenPresent_def groupOf_def)
  have dec: "list_all decodes (matchedImages sampleReport (groupOf ''g1'' 5 [''t1'', ''t2'']))"
    by (simp add: twoGroups_matched decodes_def decode_sample)
  from partial_reconciliation[where net = savesReport and r = createRequest and s = twoGroups
      and status = 201 and rep = sampleReport and g = "groupOf ''g1'' 5 [''t1'', ''t2'']",
      OF c r twoGroups_wf twoGroups_found]
  show ?thesis
    using c r twoGroups_wf twoGroups_found d twoGroups_batch dec
    by (simp add: twoGroups_form twoGroups_unmatched twoGroups_matched b uploadCall_def)
qed

section \<open>One asset group per replay\<close>




section \<open>FIFO replay: ties and gateway calls\<close>

lemma insort_key_replayed:
  assumes "sorted_wrt (\<lambda>a b. f a < f b \<or> (f a = f b \<and> g a \<le> g b)) ys"
    and "\<forall>y\<in>set ys. g x \<le> g y"
  shows "sorted_wrt (\<lambda>a b. f a < f b \<or> (f a = f b \<and> g a \<le> g b)) (insort_key f x ys)"
  using assms
proof (induction ys)
  case Nil
  then show ?case by simp
next
  case (Cons y ys)
  show ?case
  proof (cases "f x \<le> f y")
    case True
    have "\<forall>z\<in>set (y # ys). f x < f z \<or> (f x = f z \<and> g x \<le> g z)"
    proof
      fix z assume z: "z \<in> set (y # ys)"
      then have "f y \<le> f z" using Cons.prems(1) by auto
      then have "f x \<le> f z" using True by simp
      then show "f x < f z \<or> (f x = f z \<and> g x \<le> g z)" using Cons.prems(2) z by auto
    qed
    then show ?thesis using True Cons.prems(1) by simp
  next
    case False
    then have lt: "f y < f x" by simp
    have ih: "sorted_wrt (\<lambda>a b. f a < f b \<or> (f a = f b \<and> g a \<le> g b)) (insort_key f x ys)"
      using Cons by simp
    have "\<forall>z\<in>set (insort_key f x ys). f y < f z \<or> (f y = f z \<and> g y \<le> g z)"
      using Cons.prems(1) lt by (auto simp: set_insort_key)
    then show ?thesis using False ih by simp
  qed
qed

lemma sort_key_replayed:
  assumes "sorted (map g xs)"
  shows "sorted_wrt (\<lambda>a b. f a < f b \<or> (f a = f b \<and> g a \<le> g b)) (sort_key f xs)"
  using assms
proof (induction xs)
  case Nil
  then show ?case by simp
next
  case (Cons x xs)
  have "\<forall>y\<in>set (sort_key f xs). g x \<le> g y" using Cons.prems by auto
  then show ?case using Cons insort_key_replayed[of f g "sort_key f xs" x] by simp
qed

lemma getPendingRequests_ties:
  assumes "wfQueue (queueStore s)"
  shows "sorted_wrt replayedBefore (getPendingRequests s)"
proof -
  have "map req_id (map snd (sort_key fst (queueStore s))) = map fst (sort_key fst (queueStore s))"
    using assms by (auto simp: wfQueue_def)
  then have "sorted (map req_id (map snd (sort_key fst (queueStore s))))"
    by (simp only: sorted_sort_key)
  from sort_key_replayed[OF this, of req_timestamp]
  show ?thesis
    unfolding getPendingRequests_def iterate_def replayedBefore_def by (simp add: replayedBefore_def[abs_def])
qed


lemma gatewayCalls_append [simp]: "gatewayCalls (xs @ ys) = gatewayCalls xs @ gatewayCalls ys"
  by (simp add: gatewayCalls_def)

lemma gatewayCalls_uploadCall [simp]: "gatewayCalls [uploadCall token form] = []"
  by (simp add: gatewayCalls_def isGatewayCall_def uploadCall_def)

lemma gatewayCalls_replayCall [simp]: "gatewayCalls [replayCall r] = [replayCall r]"
  by (simp add: gatewayCalls_def isGatewayCall_def replayCall_def requestCall_def Let_def)

lemma replayCall_request:
  "\<exists>headers. replayCall r = HttpRequest (req_method r) (API_BASE_URL @ req_endpoint r) headers
                               (req_body r) [] \<and>
             (headers = req_headers r \<or>
              headers = setItem ''Content-Type'' ''application/json'' (req_headers r))"
  by (simp add: replayCall_def requestCall_def replayOptions_def Let_def)

lemma findAndUploadReportImages_calls:
  "\<exists>cs. netLog (snd (findAndUploadReportImages net rep s)) = netLog s @ cs \<and> gatewayCalls cs = []"
proof (cases "findStoredImagesByTempIds (reportTempIds rep) s")
  case None
  then show ?thesis by (simp add: findAndUploadReportImages_eq gatewayCalls_def)
next
  case (Some g)
  from findAndUploadReportImages_outcome(2)[OF Some, of net]
  show ?thesis by (auto simp: gatewayCalls_def isGatewayCall_def uploadCall_def)
qed

lemma processApiRequest_calls:
  "\<exists>cs. netLog (snd (processApiRequest net r s)) = netLog s @ replayCall r # cs \<and>
        gatewayCalls cs = []"
proof -
  obtain res s1 where d: "directRequest net (req_endpoint r) (replayOptions r) s = (res, s1)"
    by (cases "directRequest net (req_endpoint r) (replayOptions r) s")
  have s1: "netLog s1 = netLog s @ [replayCall r]"
    using directRequest_state[of net "req_endpoint r" "replayOptions r" s] d
    by (simp add: replayCall_def)
  have rec: "\<exists>cs. netLog (snd (findAndUploadReportImages net rep s1)) = netLog s @ replayCall r # cs \<and>
                  gatewayCalls cs = []" for rep
    using findAndUploadReportImages_calls[of net rep s1] by (auto simp: s1)
  have here: "\<exists>cs. netLog s1 = netLog s @ replayCall r # cs \<and> gatewayCalls cs = []"
    by (simp add: s1 gatewayCalls_def)
  have unfold: "processApiRequest net r s =
     (case res of
        Inl e \<Rightarrow> (Inl e, s1)
      | Inr response \<Rightarrow>
          if req_endpoint r = ''/price-reports'' \<and> req_method r = ''POST''
          then (case response of
                  None \<Rightarrow> (Inl (JsError ''TypeError''), s1)
                | Some fullReport \<Rightarrow>
                    if tokenPresent (accessToken s1)
                    then (case findAndUploadReportImages net fullReport s1 of
                            (Inl e, s2) \<Rightarrow>
                              (Inr (), logLine (Warn ''Failed to get full report for image upload:'') s2)
                          | (Inr u, s2) \<Rightarrow> (Inr (), s2))
                    else (Inr (), s1))
          else (Inr (), s1))"
    using d by (simp add: processApiRequest_def replayOptions_def)
  show ?thesis
  proof (cases res)
    case (Inl e)
    then show ?thesis using here by (simp add: unfold)
  next
    case (Inr response)
    show ?thesis
    proof (cases "req_endpoint r = ''/price-reports'' \<and> req_method r = ''POST'' \<and>
                  response \<noteq> None \<and> tokenPresent (accessToken s1)")
      case False
      then show ?thesis using Inr here by (auto simp: unfold split: option.splits)
    next
      case True
      then obtain rep where rep: "response = Some rep" by auto
      obtain res2 s2 where f: "findAndUploadReportImages net rep s1 = (res2, s2)"
        by (cases "findAndUploadReportImages net rep s1")
      have "netLog (snd (processApiRequest net r s)) = netLog s2"
        using True Inr rep f by (cases res2) (simp_all add: unfold logLine_def)
      then show ?thesis using rec[of rep] f by auto
    qed
  qed
qed

lemma processImageUpload_calls:
  "\<exists>cs. netLog (snd (processImageUpload net r s)) = netLog s @ cs \<and> gatewayCalls cs = []"
proof (cases "req_fileData r")
  case None
  then show ?thesis by (simp add: processImageUpload_def gatewayCalls_def)
next
  case (Some fd)
  obtain res s1 where a: "appendStoredFiles 0 (filePaths fd) (imageData fd)
                  [(''reportId'', Text (toString (reportId fd)))] s = (res, s1)"
    by (cases "appendStoredFiles 0 (filePaths fd) (imageData fd)
                  [(''reportId'', Text (toString (reportId fd)))] s") auto
  have len: "netLog s1 = netLog s"
    using appendStoredFiles_netLog[of 0 "filePaths fd" "imageData fd"
        "[(''reportId'', Text (toString (reportId fd)))]" s] a by simp
  show ?thesis
  proof (cases res)
    case (Inl e)
    then show ?thesis using Some a len by (simp add: processImageUpload_def gatewayCalls_def)
  next
    case (Inr formData)
    then show ?thesis
      using Some a len
      by (auto simp: processImageUpload_def perform_def gatewayCalls_def isGatewayCall_def
          split: NetReply.splits)
  qed
qed

lemma processRequest_calls:
  "\<exists>cs. netLog (snd (processRequest net r s)) = netLog s @ cs \<and>
        gatewayCalls cs = (if req_type r = Image then [] else [replayCall r])"
proof (cases "req_type r = Image")
  case True
  then show ?thesis using processImageUpload_calls[of net r s] by (simp add: processRequest_def)
next
  case False
  obtain cs where "netLog (snd (processApiRequest net r s)) = netLog s @ replayCall r # cs"
    "gatewayCalls cs = []"
    using processApiRequest_calls[of net r s] by blast
  then have "netLog (snd (processApiRequest net r s)) = netLog s @ (replayCall r # cs) \<and>
             gatewayCalls (replayCall r # cs) = [replayCall r]"
    using gatewayCalls_append[of "[replayCall r]" cs] by simp
  then show ?thesis using False by (auto simp: processRequest_def)
qed

text \<open>
  A pass of the loop attempts no request and makes no network call, or attempts the head of
  its list and makes the calls of that replay: for an API request its gateway call, and
  after it at most uploads.
\<close>

lemma syncBody_hands_over:
  "(attempted (console (world (syncBody net ls))) = attempted (console (world ls)) \<and>
    netLog (world (syncBody net ls)) = netLog (world ls)) \<or>
   (\<exists>r rest cs. requests ls = r # rest \<and>
      attempted (console (world (syncBody net ls))) = attempted (console (world ls)) @ [r] \<and>
      netLog (world (syncBody net ls)) = netLog (world ls) @ cs \<and>
      gatewayCalls cs = (if req_type r = Image then [] else [replayCall r]))"
proof (cases rule: syncBody_cases[of ls net])
  case (Success r rest cur s1)
  obtain cs where cs: "netLog s1 = netLog (world ls) @ cs"
    "gatewayCalls cs = (if req_type r = Image then [] else [replayCall r])"
    using processRequest_calls[of net r "logLine (Processing r) (world ls)"] Success(5) by auto
  have "attempted (console s1) = attempted (console (world ls)) @ [r]"
    using processRequest_fields(6)[OF Success(5)] by (simp add: logLine_def)
  then show ?thesis
    using Success(1,6) cs by (simp add: logLine_def removeRequest_def)
next
  case (Failure r rest cur e s1)
  obtain cs where cs: "netLog s1 = netLog (world ls) @ cs"
    "gatewayCalls cs = (if req_type r = Image then [] else [replayCall r])"
    using processRequest_calls[of net r "logLine (Processing r) (world ls)"] Failure(5) by auto
  have "attempted (console s1) = attempted (console (world ls)) @ [r]"
    using processRequest_fields(6)[OF Failure(5)] by (simp add: logLine_def)
  then show ?thesis
    using Failure(1,6) cs
    by (simp add: logLine_def updateRequestRetry_def split: option.splits)
qed (simp_all add: removeRequest_def)

lemma syncLoop_hands_over:
  "\<exists>new cs. attempted (console (world (syncLoop net ls))) = attempted (console (world ls)) @ new \<and>
            netLog (world (syncLoop net ls)) = netLog (world ls) @ cs \<and>
            gatewayCalls cs = map replayCall (filter (\<lambda>r. req_type r \<noteq> Image) new)"
proof -
  let ?P = "\<lambda>l. \<exists>new cs. attempted (console (world l)) = attempted (console (world ls)) @ new \<and>
            netLog (world l) = netLog (world ls) @ cs \<and>
            gatewayCalls cs = map replayCall (filter (\<lambda>r. req_type r \<noteq> Image) new)"
  have start: "?P ls" by (simp add: gatewayCalls_def)
  have step: "?P (syncBody net l)" if p: "?P l" for l
  proof -
    from p obtain new cs where n: "attempted (console (world l)) = attempted (console (world ls)) @ new"
      "netLog (world l) = netLog (world ls) @ cs"
      "gatewayCalls cs = map replayCall (filter (\<lambda>r. req_type r \<noteq> Image) new)"
      by blast
    from syncBody_hands_over[of net l] show ?thesis
    proof
      assume "attempted (console (world (syncBody net l))) = attempted (console (world l)) \<and>
              netLog (world (syncBody net l)) = netLog (world l)"
      then show ?thesis using n by auto
    next
      assume "\<exists>r rest cs. requests l = r # rest \<and>
         attempted (console (world (syncBody net l))) = attempted (console (world l)) @ [r] \<and>
         netLog (world (syncBody net l)) = netLog (world l) @ cs \<and>
         gatewayCalls cs = (if req_type r = Image then [] else [replayCall r])"
      then obtain r cs' where r:
        "attempted (console (world (syncBody net l))) = attempted (console (world l)) @ [r]"
        "netLog (world (syncBody net l)) = netLog (world l) @ cs'"
        "gatewayCalls cs' = (if req_type r = Image then [] else [replayCall r])"
        by blast
      have "attempted (console (world (syncBody net l)))
              = attempted (console (world ls)) @ (new @ [r])"
        "netLog (world (syncBody net l)) = netLog (world ls) @ (cs @ cs')"
        "gatewayCalls (cs @ cs') = map replayCall (filter (\<lambda>r. req_type r \<noteq> Image) (new @ [r]))"
        using n r by simp_all
      then show ?thesis by blast
    qed
  qed
  from syncLoop_invariant[of ?P ls net, OF start step] show ?thesis by blast
qed

lemma drain_hands_over:
  "\<exists>new cs. attempted (console (drain net s)) = attempted (console s) @ new \<and>
            sorted (map req_timestamp new) \<and>
            netLog (drain net s) = netLog s @ cs \<and>
            gatewayCalls cs = map replayCall (filter (\<lambda>r. req_type r \<noteq> Image) new)"
proof (cases "syncInProgress s \<or> \<not> storageAvailable s")
  case True
  then have "attempted (console (drain net s)) = attempted (console s) @ []"
    "netLog (drain net s) = netLog s @ []"
    by (auto simp: drain_def syncPendingRequests_def Let_def)
  then show ?thesis by (intro exI[of _ "[]"]) (simp add: gatewayCalls_def)
next
  case False
  let ?ls = "startLoop (s\<lparr>syncInProgress := True\<rparr>)"
  from syncLoop_fifo[of "s\<lparr>syncInProgress := True\<rparr>" net] obtain new1 where f:
    "attempted (console (world (syncLoop net ?ls))) = attempted (console s) @ new1"
    "sorted (map req_timestamp new1)"
    unfolding fifoInv_def by auto
  from syncLoop_hands_over[of net ?ls] obtain new cs where h:
    "attempted (console (world (syncLoop net ?ls))) = attempted (console s) @ new"
    "netLog (world (syncLoop net ?ls)) = netLog s @ cs"
    "gatewayCalls cs = map replayCall (filter (\<lambda>r. req_type r \<noteq> Image) new)"
    by (auto simp: startLoop_def)
  have "new1 = new" using f(1) h(1) by simp
  then have "sorted (map req_timestamp new)" using f(2) by simp
  moreover have "drain net s = (notifySyncComplete (world (syncLoop net ?ls)))\<lparr>syncInProgress := False\<rparr>"
    using False by (simp add: drain_def syncPendingRequests_def Let_def)
  ultimately show ?thesis using h by (auto simp: notifySyncComplete_def)
qed

text \<open>
  C1, as the code has it. \<^verbatim>\<open>getPendingRequests\<close> returns exactly the stored requests, in
  ascending order of \<open>timestamp\<close>; requests of one timestamp come in ascending order of
  their ids, which is the order in which the store is iterated. A pass of the loop attempts
  no request and makes no network call, or attempts the head of its current list and makes
  the calls of that replay, for an API request its gateway call and no other gateway call.
  The gateway call of a request carries its method, endpoint and body. The requests one
  drain attempts have non-decreasing timestamps, and the gateway calls of the drain are
  those of the API requests it attempts, in that order: no request is handed to the gateway
  before a request with a smaller timestamp. The order of enqueueing itself is not kept
  among requests of one timestamp.
\<close>

theorem fifo_replay:
  "sorted (map req_timestamp (getPendingRequests s)) \<and>
   mset (getPendingRequests s) = mset (map snd (queueStore s)) \<and>
   (wfQueue (queueStore s) \<longrightarrow> sorted_wrt replayedBefore (getPendingRequests s)) \<and>
   (\<forall>ls. (attempted (console (world (syncBody net ls))) = attempted (console (world ls)) \<and>
          netLog (world (syncBody net ls)) = netLog (world ls)) \<or>
         (\<exists>r rest cs. requests ls = r # rest \<and>
            attempted (console (world (syncBody net ls))) = attempted (console (world ls)) @ [r] \<and>
            netLog (world (syncBody net ls)) = netLog (world ls) @ cs \<and>
            gatewayCalls cs = (if req_type r = Image then [] else [replayCall r]))) \<and>
   (\<exists>headers. replayCall r = HttpRequest (req_method r) (API_BASE_URL @ req_endpoint r) headers
                                (req_body r) [] \<and>
              (headers = req_headers r \<or>
               headers = setItem ''Content-Type'' ''application/json'' (req_headers r))) \<and>
   (\<exists>new cs. attempted (console (drain net s)) = attempted (console s) @ new \<and>
             sorted (map req_timestamp new) \<and>
             netLog (drain net s) = netLog s @ cs \<and>
             gatewayCalls cs = map replayCall (filter (\<lambda>r. req_type r \<noteq> Image) new))"
  using getPendingRequests_sorted[of s] getPendingRequests_mset[of s]
    getPendingRequests_ties[of s] syncBody_hands_over[of net] replayCall_request[of r]
    drain_hands_over[of net s]
  by blast

text \<open>
  Two requests are submitted while offline, in the same millisecond; the id of the first
  ends in \<open>k3x9q2m1p\<close>, that of the second in \<open>b81c0dz4e\<close>. The drain hands the second to the gateway
  before the first.
\<close>

theorem same_millisecond_replay_order:
  "map req_endpoint (getPendingRequests queuedFirst) = [''/notifications/1/read''] \<and>
   map req_timestamp (getPendingRequests queuedBoth) = [1700000000000, 1700000000000] \<and>
   map req_endpoint (attempted (console (drain alwaysOk queuedBoth)))
     = [''/notifications/2/read'', ''/notifications/1/read''] \<and>
   netLog (drain alwaysOk queuedBoth)
     = [HttpRequest ''PUT'' ''http://13.50.108.254:3000/notifications/2/read''
          [(''Content-Type'', ''application/json'')] None [],
        HttpRequest ''PUT'' ''http://13.50.108.254:3000/notifications/1/read''
          [(''Content-Type'', ''application/json'')] None []]"
proof -
  have q1: "queueStore queuedFirst
     = [(''req_1700000000000_k3x9q2m1p'', \<lparr> req_id = ''req_1700000000000_k3x9q2m1p'', req_endpoint = ''/notifications/1/read'',
            req_method = ''PUT'', req_headers = [], req_body = None, req_timestamp = 1700000000000,
            req_retries = 0, req_type = Api, req_fileData = None \<rparr>)]"
    by (simp add: queuedFirst_def markRead_def offlineState_def freshState_def request_def
        handleOfflineRequest_def queueRequest_def generateId_def toString_def digits.simps
        Let_def)
  have q2: "queuedBoth = offlineState\<lparr>queueStore :=
       [(''req_1700000000000_k3x9q2m1p'', \<lparr> req_id = ''req_1700000000000_k3x9q2m1p'', req_endpoint = ''/notifications/1/read'',
            req_method = ''PUT'', req_headers = [], req_body = None, req_timestamp = 1700000000000,
            req_retries = 0, req_type = Api, req_fileData = None \<rparr>),
        (''req_1700000000000_b81c0dz4e'', \<lparr> req_id = ''req_1700000000000_b81c0dz4e'', req_endpoint = ''/notifications/2/read'',
            req_method = ''PUT'', req_headers = [], req_body = None, req_timestamp = 1700000000000,
            req_retries = 0, req_type = Api, req_fileData = None \<rparr>)]\<rparr>"
    by (simp add: queuedBoth_def queuedFirst_def markRead_def offlineState_def freshState_def
        request_def handleOfflineRequest_def queueRequest_def generateId_def toString_def
        digits.simps Let_def)
  have a: "map req_endpoint (getPendingRequests queuedFirst) = [''/notifications/1/read'']"
    by (simp add: getPendingRequests_def iterate_def q1)
  have b: "map req_timestamp (getPendingRequests queuedBoth) = [1700000000000, 1700000000000]"
    by (simp add: getPendingRequests_def iterate_def q2)
  have c: "map req_endpoint (attempted (console (drain alwaysOk queuedBoth)))
     = [''/notifications/2/read'', ''/notifications/1/read'']"
    unfolding q2
    by (simp add: drain_def drain_eval offlineState_def freshState_def alwaysOk_def
        attempted_def)
  have d: "netLog (drain alwaysOk queuedBoth)
     = [HttpRequest ''PUT'' ''http://13.50.108.254:3000/notifications/2/read''
          [(''Content-Type'', ''application/json'')] None [],
        HttpRequest ''PUT'' ''http://13.50.108.254:3000/notifications/1/read''
          [(''Content-Type'', ''application/json'')] None []]"
    unfolding q2
    by (simp add: drain_def drain_eval offlineState_def freshState_def alwaysOk_def
        requestCall_def API_BASE_URL_def)
  show ?thesis using a b c d by simp
qed

theorem fifo_replay_witness:
  "wfQueue (queueStore (freshState\<lparr>queueStore :=
      [(''b'', sampleRequest ''b'' 5 0), (''a'', sampleRequest ''a'' 2 0)]\<rparr>)) \<and>
   getPendingRequests (freshState\<lparr>queueStore :=
      [(''b'', sampleRequest ''b'' 5 0), (''a'', sampleRequest ''a'' 2 0)]\<rparr>)
     = [sampleRequest ''a'' 2 0, sampleRequest ''b'' 5 0] \<and>
   attempted (console (drain alwaysOk (freshState\<lparr>queueStore :=
      [(''b'', sampleRequest ''b'' 5 0), (''a'', sampleRequest ''a'' 2 0)]\<rparr>)))
     = [sampleRequest ''a'' 2 0, sampleRequest ''b'' 5 0] \<and>
   netLog (drain alwaysOk (freshState\<lparr>queueStore :=
      [(''b'', sampleRequest ''b'' 5 0), (''a'', sampleRequest ''a'' 2 0)]\<rparr>))
     = [replayCall (sampleRequest ''a'' 2 0), replayCall (sampleRequest ''b'' 5 0)]"
  using fifo_replay[of "freshState\<lparr>queueStore :=
      [(''b'', sampleRequest ''b'' 5 0), (''a'', sampleRequest ''a'' 2 0)]\<rparr>" alwaysOk]
  by (simp add: drain_def drain_eval freshState_def sampleRequest_def alwaysOk_def
      attempted_def wfQueue_def replayCall_def replayOptions_def)

end
